theory Spec2Isabelle
  imports Main "HOL-Library.Sublist"
begin

section \<open>Formatting (package fmt, as far as main.go uses it)\<close>

text \<open>
  Only the verbs \<open>%d\<close> (on an integer) and \<open>%s\<close> (on a string) occur in main.go.
  An operand of the wrong kind, or a missing one, prints Go's \<open>%!verb(...)\<close> marker,
  and Go reports surplus operands at the end of the output, which is left out here;
  main.go does none of this: every format it uses has the operands it names.
\<close>

datatype fmt_arg = D int | S string

function decimal :: "int \<Rightarrow> string" where
  "decimal n =
     (if n < 10 then [''0123456789'' ! nat n]
      else decimal (n div 10) @ [''0123456789'' ! nat (n mod 10)])"
  by pat_completeness auto
termination
  by (relation "measure nat") auto

declare decimal.simps [simp del]

definition fmt_d :: "int \<Rightarrow> string" where
  "fmt_d i = (if i < 0 then CHR ''-'' # decimal (- i) else decimal i)"

fun Sprintf :: "string \<Rightarrow> fmt_arg list \<Rightarrow> string" where
  "Sprintf [] args = []"
| "Sprintf [c] args = [c]"
| "Sprintf (c # v # rest) args =
     (if c = CHR ''%'' \<and> v = CHR ''d'' then
        (case args of
           D n # args' \<Rightarrow> fmt_d n @ Sprintf rest args'
         | S s # args' \<Rightarrow> ''%!d(string='' @ s @ '')'' @ Sprintf rest args'
         | [] \<Rightarrow> ''%!d(MISSING)'' @ Sprintf rest [])
      else if c = CHR ''%'' \<and> v = CHR ''s'' then
        (case args of
           S s # args' \<Rightarrow> s @ Sprintf rest args'
         | D n # args' \<Rightarrow> ''%!s(int='' @ fmt_d n @ '')'' @ Sprintf rest args'
         | [] \<Rightarrow> ''%!s(MISSING)'' @ Sprintf rest [])
      else c # Sprintf (v # rest) args)"

text \<open>
  \<open>Sprintln\<close> puts one space between operands and a newline at the end. This is the
  message \<open>log.Println\<close> hands to the logger; the logger's date and time prefix is
  left out.
\<close>

fun spaced :: "string list \<Rightarrow> string" where
  "spaced [] = []"
| "spaced [x] = x"
| "spaced (x # y # ys) = x @ '' '' @ spaced (y # ys)"

definition Sprintln :: "string list \<Rightarrow> string" where
  "Sprintln ops = spaced ops @ [CHR 0x0A]"

section \<open>Data model\<close>

record Item =
  Title :: string
  Description :: string
  Footer :: string

text \<open>Go's zero value of \<open>Item\<close>, which a receive from a closed, drained channel yields.\<close>

definition zeroItem :: Item where
  "zeroItem = \<lparr>Title = [], Description = [], Footer = []\<rparr>"

section \<open>The filesystem as the scanner sees it\<close>

text \<open>
  \<open>os.FileInfo\<close>: the four methods main.go calls. \<open>Size\<close> is an \<open>int64\<close> and \<open>Mode\<close> a
  \<open>uint32\<close>; both are only printed, never computed with. An \<open>error\<close> is represented by its message.
\<close>

type_synonym go_error = string

record FileInfo =
  Name :: string
  Size :: int
  Mode :: int
  IsDir :: bool

text \<open>
  The operating system and the two library predicates that \<open>scanDirectory\<close> consults:
  \<open>os.Args\<close>, \<open>os.Getwd\<close>, \<open>ioutil.ReadDir\<close>, \<open>os.Stat\<close>, \<open>util.IsTextFile\<close>
  and \<open>FileMode.String\<close>. They are parameters of the model.
\<close>

record Env =
  Args :: "string list"
  Getwd :: "go_error + string"
  ReadDir :: "string \<Rightarrow> go_error + FileInfo list"
  Stat :: "string \<Rightarrow> go_error + FileInfo"
  IsTextFile :: "string \<Rightarrow> bool"
  ModeString :: "int \<Rightarrow> string"

section \<open>scanDirectory\<close>

text \<open>
  What the scanner goroutine does, in order: log lines, sends on the item channel, and
  a panic that ends it. The sends block or panic depending on the channel; that part is
  in the model of the goroutines below.
\<close>

datatype scan_event = Log string | Send Item | ScanPanic string

definition fullPathOf :: "string \<Rightarrow> FileInfo \<Rightarrow> string" where
  "fullPathOf path file = Sprintf ''%s/%s'' [S path, S (Name file)]"

text \<open>Lines 208 to 229: the item built from an entry whose stat succeeded.\<close>

definition newItem :: "Env \<Rightarrow> string \<Rightarrow> FileInfo \<Rightarrow> FileInfo \<Rightarrow> Item" where
  "newItem env path file fileStat =
     (let fullPath = fullPathOf path file;
          isDir = (if IsDir fileStat then ''Yes'' else ''No'');
          fileFormat = (if IsTextFile env fullPath then ''Text'' else ''Bin'')
      in \<lparr>Title = Name file,
          Description =
            Sprintf (''File size: %d'' @ [CHR 0x0A] @ ''Parent dir: %s'' @ [CHR 0x0A]
                     @ ''File mode: %s'' @ [CHR 0x0A] @ ''Directory: %s'' @ [CHR 0x0A]
                     @ ''File format: %s'')
              [D (Size fileStat), S path, S (ModeString env (Mode fileStat)), S isDir,
               S fileFormat],
          Footer = fullPath\<rparr>)"

text \<open>Lines 198 to 232: the loop over the listing.\<close>

fun scanFiles :: "Env \<Rightarrow> string \<Rightarrow> FileInfo list \<Rightarrow> scan_event list" where
  "scanFiles env path [] = []"
| "scanFiles env path (file # files) =
     Log (Sprintln [''Adding '', Name file]) #
     (case Stat env (fullPathOf path file) of
        Inl err \<Rightarrow>
          Log (Sprintf (''Unable to get stat of '' @ [CHR 0x27] @ ''%s'' @ [CHR 0x27] @ ''. %s'')
                 [S (Name file), S err])
          # scanFiles env path files
      | Inr fileStat \<Rightarrow>
          Send (newItem env path file fileStat) # scanFiles env path files)"

text \<open>Lines 191 to 196, then the loop.\<close>

definition scanPath :: "Env \<Rightarrow> string \<Rightarrow> scan_event list" where
  "scanPath env path =
     (case ReadDir env path of
        Inl err \<Rightarrow> [Log (Sprintln [''Unable to read dir: '', path, err])]
      | Inr files \<Rightarrow> scanFiles env path files)"

text \<open>
  Lines 174 to 189: the log lines written while the path is resolved, and the path.
  \<open>os.Args[1]\<close> is evaluated whenever the length is not 1, so an empty argument
  vector panics with an index out of range.
\<close>

definition resolvePath :: "Env \<Rightarrow> scan_event list \<times> string option" where
  "resolvePath env =
     (if length (Args env) = 1 then
        (case Getwd env of
           Inl err \<Rightarrow>
             ([Log (Sprintln [''No path, using current working directory'']),
               Log (Sprintln [''Unable to get current directory. '', err])], None)
         | Inr currentDir \<Rightarrow>
             ([Log (Sprintln [''No path, using current working directory'']),
               Log (Sprintln [''Current directory: '', currentDir])], Some currentDir))
      else if length (Args env) < 2 then
        ([ScanPanic ''index out of range [1] with length 0''], None)
      else
        ([Log (Sprintln [''Path: '', Args env ! 1])], Some (Args env ! 1)))"

definition scanDirectory :: "Env \<Rightarrow> scan_event list" where
  "scanDirectory env =
     (case resolvePath env of
        (evs, None) \<Rightarrow> evs
      | (evs, Some path) \<Rightarrow> evs @ scanPath env path)"

text \<open>The items the scanner sends, in order.\<close>

fun sends :: "scan_event list \<Rightarrow> Item list" where
  "sends [] = []"
| "sends (Send it # es) = it # sends es"
| "sends (e # es) = sends es"

fun is_ScanPanic :: "scan_event \<Rightarrow> bool" where
  "is_ScanPanic (ScanPanic m) = True"
| "is_ScanPanic e = False"

section \<open>Channels\<close>

text \<open>
  A buffered Go channel: the values waiting in it, its capacity, and whether it has
  been closed. A goroutine either completes an operation, cannot proceed yet, or panics.
\<close>

record 'a chan =
  queue :: "'a list"
  capacity :: nat
  isClosed :: bool

datatype 'a outcome = Ok 'a | Blocked | Panic string

fun bind_outcome :: "'a outcome \<Rightarrow> ('a \<Rightarrow> 'b outcome) \<Rightarrow> 'b outcome" where
  "bind_outcome (Ok x) f = f x"
| "bind_outcome Blocked f = Blocked"
| "bind_outcome (Panic m) f = Panic m"

definition make_chan :: "nat \<Rightarrow> 'a chan" where
  "make_chan n = \<lparr>queue = [], capacity = n, isClosed = False\<rparr>"

text \<open>\<open>c <- v\<close>: panics on a closed channel, waits while the buffer is full.\<close>

definition chan_send :: "'a chan \<Rightarrow> 'a \<Rightarrow> 'a chan outcome" where
  "chan_send c v =
     (if isClosed c then Panic ''send on closed channel''
      else if length (queue c) < capacity c then Ok (c\<lparr>queue := queue c @ [v]\<rparr>)
      else Blocked)"

text \<open>
  A receive can proceed when a value is buffered or the channel is closed; from a
  closed, drained channel it yields the zero value of the element type.
\<close>

definition chan_ready :: "'a chan \<Rightarrow> bool" where
  "chan_ready c = (case queue c of [] \<Rightarrow> isClosed c | v # vs \<Rightarrow> True)"

definition chan_recv :: "'a \<Rightarrow> 'a chan \<Rightarrow> 'a \<times> 'a chan" where
  "chan_recv zero c =
     (case queue c of [] \<Rightarrow> (zero, c) | v # vs \<Rightarrow> (v, c\<lparr>queue := vs\<rparr>))"

definition chan_close :: "'a chan \<Rightarrow> 'a chan outcome" where
  "chan_close c =
     (if isClosed c then Panic ''close of closed channel'' else Ok (c\<lparr>isClosed := True\<rparr>))"

section \<open>Application\<close>

text \<open>Keycodes (lines 17 to 21).\<close>

definition J :: int where "J = 106"
definition K :: int where "K = 107"
definition Q :: int where "Q = 113"

text \<open>
  What main.go uses of tcell's key events: the key, the rune and the modifiers.
  \<open>NewEventKey\<close> is only called with keys other than \<open>KeyRune\<close>, where it stores its
  arguments as they are.
\<close>

datatype Key = KeyCtrlC | KeyDown | KeyUp | KeyRune | KeyOther nat

datatype ModMask = ModNone | ModCtrl | ModOther nat

record EventKey =
  evKey :: Key
  evRune :: int
  evMod :: ModMask

definition NewEventKey :: "Key \<Rightarrow> int \<Rightarrow> ModMask \<Rightarrow> EventKey" where
  "NewEventKey k ch m = \<lparr>evKey = k, evRune = ch, evMod = m\<rparr>"

datatype Primitive = ListView | HeaderView | DescriptionView | FooterView

text \<open>
  The \<open>Application\<close> struct. The widgets are represented by what main.go puts into
  them: the main texts of the list entries and the three texts. Of the toolkit's own
  state the model keeps the focused primitive and the queue of updates handed to
  \<open>QueueUpdateDraw\<close>, which the event loop runs one at a time in the order they were
  queued; the function literal queued by \<open>addItem\<close> is determined by the item it
  captures. \<open>logged\<close> is the output of the process-wide logger. Go's \<open>int\<close> is taken
  as 64 bits wide.
\<close>

record Application =
  focus :: Primitive
  updates :: "Item list"
  listView :: "string list"
  headerView :: string
  footerView :: string
  descriptionView :: string
  items :: "Item list"
  selectedItemIndex :: int
  itemAdded :: "Item chan"
  stopReceiveNewItem :: "bool chan"
  waitgroup :: int
  logged :: "string list"

definition go_int :: "int \<Rightarrow> int" where
  "go_int x = (x + 2 ^ 63) mod 2 ^ 64 - 2 ^ 63"

definition logPrintln :: "Application \<Rightarrow> string list \<Rightarrow> Application" where
  "logPrintln app ops = app\<lparr>logged := logged app @ [Sprintln ops]\<rparr>"

text \<open>Lines 49 to 58. The list view holds the focus once the root has been set.\<close>

definition newApplication :: Application where
  "newApplication =
     \<lparr>focus = ListView, updates = [], listView = [], headerView = [], footerView = [],
      descriptionView = [], items = [], selectedItemIndex = 0,
      itemAdded = make_chan 100, stopReceiveNewItem = make_chan 10,
      waitgroup = 0, logged = []\<rparr>"

text \<open>Lines 61 to 68: the list's selection-changed callback.\<close>

definition changedFunc :: "Application \<Rightarrow> int \<Rightarrow> Application outcome" where
  "changedFunc app index =
     (let app1 = app\<lparr>selectedItemIndex := index\<rparr> in
      if index < 0 \<or> int (length (items app1)) \<le> index then Panic ''index out of range''
      else
        (let item = items app1 ! nat index;
             app2 = logPrintln app1 [''Selected item '', Title item]
         in Ok (app2\<lparr>headerView := Title item,
                     descriptionView := Description item,
                     footerView :=
                       Sprintf ''%d/%d: %s''
                         [D (go_int (index + 1)), D (int (length (items app2))),
                          S (Footer item)]\<rparr>)))"

text \<open>Lines 70 to 77.\<close>

definition mouseCapture :: "Application \<Rightarrow> Application" where
  "mouseCapture app = app\<lparr>focus := ListView\<rparr>"

text \<open>\<open>app.stopReceiveNewItem <- true\<close>\<close>

definition sendStop :: "Application \<Rightarrow> Application outcome" where
  "sendStop app =
     bind_outcome (chan_send (stopReceiveNewItem app) True)
       (\<lambda>c. Ok (app\<lparr>stopReceiveNewItem := c\<rparr>))"

text \<open>Lines 79 to 100: the input capture, returning the event it passes on.\<close>

definition inputCapture :: "Application \<Rightarrow> EventKey \<Rightarrow> (Application \<times> EventKey) outcome" where
  "inputCapture app event =
     bind_outcome
       (if evKey event = KeyCtrlC
        then sendStop (logPrintln app [''Pressed Ctrl+C, stopping app...''])
        else Ok app)
       (\<lambda>app1.
          if focus app1 = ListView then
            if evRune event = J then Ok (app1, NewEventKey KeyDown 0 ModNone)
            else if evRune event = K then Ok (app1, NewEventKey KeyUp 0 ModNone)
            else if evRune event = Q then
              bind_outcome (sendStop (logPrintln app1 [''Pressed Q, stopping app...'']))
                (\<lambda>app2. Ok (app2, NewEventKey KeyCtrlC 0 ModCtrl))
            else Ok (app1, event)
          else Ok (app1, event))"

text \<open>
  Lines 160 to 167. The append to \<open>items\<close> is a statement of \<open>addItem\<close> itself; only
  the function literal goes to \<open>QueueUpdateDraw\<close>.
\<close>

definition addItem :: "Application \<Rightarrow> Item \<Rightarrow> Application" where
  "addItem app item =
     (let app1 = app\<lparr>items := items app @ [item]\<rparr>
      in app1\<lparr>updates := updates app1 @ [item]\<rparr>)"

text \<open>Lines 163 to 165: the queued function literal, when the event loop runs it.\<close>

definition queuedUpdate :: "Item \<Rightarrow> Application \<Rightarrow> Application" where
  "queuedUpdate item app =
     (let app1 = app\<lparr>listView := listView app @ [Title item]\<rparr>
      in app1\<lparr>footerView :=
                Sprintf ''%d/%d: %s''
                  [D (go_int (selectedItemIndex app1 + 1)), D (int (length (items app1))),
                   S (Footer item)]\<rparr>)"

section \<open>The ingestion loop\<close>

text \<open>
  One \<open>select\<close> of lines 122 to 134. Go chooses among the cases that can proceed by
  a pseudo-random pick, here the number \<open>rnd\<close>, and takes \<open>default\<close> when none can.
\<close>

datatype select_case = RecvStop | RecvItem | Default

definition ready_cases :: "Application \<Rightarrow> select_case list" where
  "ready_cases app =
     (if chan_ready (stopReceiveNewItem app) then [RecvStop] else []) @
     (if chan_ready (itemAdded app) then [RecvItem] else [])"

definition select :: "nat \<Rightarrow> select_case list \<Rightarrow> select_case" where
  "select rnd cs = (if cs = [] then Default else cs ! (rnd mod length cs))"

datatype loop_state = Running | Stopped

text \<open>\<open>waitgroup.Done()\<close> panics when the counter would become negative.\<close>

definition waitgroupDone :: "Application \<Rightarrow> Application outcome" where
  "waitgroupDone app =
     (if waitgroup app - 1 < 0 then Panic ''sync: negative WaitGroup counter''
      else Ok (app\<lparr>waitgroup := waitgroup app - 1\<rparr>))"

definition loopIteration :: "nat \<Rightarrow> Application \<Rightarrow> (Application \<times> loop_state) outcome" where
  "loopIteration rnd app =
     (case select rnd (ready_cases app) of
        RecvStop \<Rightarrow>
          (case chan_recv False (stopReceiveNewItem app) of
             (stop, c) \<Rightarrow>
               (let app1 = app\<lparr>stopReceiveNewItem := c\<rparr> in
                if stop then
                  bind_outcome (chan_close (itemAdded app1))
                    (\<lambda>c'. bind_outcome (waitgroupDone (app1\<lparr>itemAdded := c'\<rparr>))
                       (\<lambda>app2. Ok (logPrintln app2 [''No longer receive new items''], Stopped)))
                else Ok (app1, Running)))
      | RecvItem \<Rightarrow>
          (case chan_recv zeroItem (itemAdded app) of
             (received, c) \<Rightarrow>
               (let app1 = logPrintln (app\<lparr>itemAdded := c\<rparr>)
                             [''Receiving newly added item: '', Title received]
                in Ok (addItem app1 received, Running)))
      | Default \<Rightarrow> Ok (app, Running))"

section \<open>The three goroutines\<close>

text \<open>
  The process: the scanner goroutine with what it still has to do, the ingestion loop,
  and the main goroutine, which runs the event loop, then waits for the wait group, then
  returns. A panic in any goroutine ends the process.
\<close>

datatype ui_state = EventLoop | Waiting | Exited

record System =
  application :: Application
  scanner :: "scan_event list"
  loop :: loop_state
  ui :: ui_state
  crashed :: "string option"

text \<open>
  One step of one goroutine, chosen by the scheduler; \<open>None\<close> when the goroutine has
  nothing to do or would have to wait (a send on a full channel, \<open>Wait\<close> on a counter
  above zero). No goroutine takes a step once the process has panicked or \<open>main\<close> has
  returned. \<open>QueueUpdateDraw\<close> is taken to return once the update is queued; the
  schedules below run each update right after the step that queued it. The event loop runs a queued update, hands a key event to
  the input capture (and stops when the event passed on is Ctrl+C), hands a mouse event
  on the list to the mouse capture, moves the focus, reports a changed selection for an
  entry of the list, or fails.
\<close>

datatype action =
    ScannerStep
  | LoopStep nat
  | RunUpdate
  | KeyEvent EventKey
  | MouseEvent
  | SetFocus Primitive
  | SelectionChanged int
  | RunFailed string
  | WaitReturns

datatype goroutine = ScannerGoroutine | LoopGoroutine | MainGoroutine

fun goroutine_of :: "action \<Rightarrow> goroutine" where
  "goroutine_of ScannerStep = ScannerGoroutine"
| "goroutine_of (LoopStep rnd) = LoopGoroutine"
| "goroutine_of a = MainGoroutine"

definition scannerStep :: "System \<Rightarrow> System option" where
  "scannerStep s =
     (case scanner s of
        [] \<Rightarrow> None
      | Log m # es \<Rightarrow> Some (s\<lparr>application := (application s)\<lparr>logged := logged (application s) @ [m]\<rparr>, scanner := es\<rparr>)
      | Send it # es \<Rightarrow>
          (case chan_send (itemAdded (application s)) it of
             Ok c \<Rightarrow> Some (s\<lparr>application := (application s)\<lparr>itemAdded := c\<rparr>, scanner := es\<rparr>)
           | Blocked \<Rightarrow> None
           | Panic m \<Rightarrow> Some (s\<lparr>crashed := Some m\<rparr>))
      | ScanPanic m # es \<Rightarrow> Some (s\<lparr>crashed := Some m\<rparr>))"

definition loopStep :: "nat \<Rightarrow> System \<Rightarrow> System option" where
  "loopStep rnd s =
     (if loop s = Stopped then None
      else case loopIteration rnd (application s) of
             Ok (a, l) \<Rightarrow> Some (s\<lparr>application := a, loop := l\<rparr>)
           | Blocked \<Rightarrow> None
           | Panic m \<Rightarrow> Some (s\<lparr>crashed := Some m\<rparr>))"

definition uiStep :: "action \<Rightarrow> System \<Rightarrow> System option" where
  "uiStep a s =
     (case a of
        RunUpdate \<Rightarrow>
          (case updates (application s) of
             [] \<Rightarrow> None
           | item # rest \<Rightarrow> Some (s\<lparr>application := queuedUpdate item ((application s)\<lparr>updates := rest\<rparr>)\<rparr>))
      | KeyEvent event \<Rightarrow>
          (case inputCapture (application s) event of
             Ok (a', event') \<Rightarrow>
               if evKey event' = KeyCtrlC
               then Some (s\<lparr>application := logPrintln a' [''Waiting until no longer receiving new item...''],
                           ui := Waiting\<rparr>)
               else Some (s\<lparr>application := a'\<rparr>)
           | Blocked \<Rightarrow> None
           | Panic m \<Rightarrow> Some (s\<lparr>crashed := Some m\<rparr>))
      | MouseEvent \<Rightarrow> Some (s\<lparr>application := mouseCapture (application s)\<rparr>)
      | SetFocus p \<Rightarrow> Some (s\<lparr>application := (application s)\<lparr>focus := p\<rparr>\<rparr>)
      | SelectionChanged index \<Rightarrow>
          (if 0 \<le> index \<and> index < int (length (listView (application s))) then
             (case changedFunc (application s) index of
                Ok a' \<Rightarrow> Some (s\<lparr>application := a'\<rparr>)
              | Blocked \<Rightarrow> None
              | Panic m \<Rightarrow> Some (s\<lparr>crashed := Some m\<rparr>))
           else None)
      | RunFailed err \<Rightarrow> Some (s\<lparr>crashed := Some err\<rparr>)
      | _ \<Rightarrow> None)"

definition step :: "action \<Rightarrow> System \<Rightarrow> System option" where
  "step a s =
     (if crashed s = None \<and> ui s \<noteq> Exited then
        (case a of
           ScannerStep \<Rightarrow> scannerStep s
         | LoopStep rnd \<Rightarrow> loopStep rnd s
         | WaitReturns \<Rightarrow>
             (if ui s = Waiting \<and> waitgroup (application s) = 0
              then Some (s\<lparr>application := logPrintln (application s) [''Stopped''],
                          ui := Exited\<rparr>)
              else None)
         | _ \<Rightarrow> (if ui s = EventLoop then uiStep a s else None))
      else None)"

fun run :: "action list \<Rightarrow> System \<Rightarrow> System option" where
  "run [] s = Some s"
| "run (a # as) s = (case step a s of None \<Rightarrow> None | Some s' \<Rightarrow> run as s')"

text \<open>Lines 110 to 117 of \<open>start\<close>, up to the launch of the ingestion loop.\<close>

definition start :: "Application \<Rightarrow> Application" where
  "start app =
     (let app1 = logPrintln app [''Starting application...'']
      in app1\<lparr>waitgroup := waitgroup app1 + 1\<rparr>)"

text \<open>Lines 235 to 240: the process once all three goroutines exist.\<close>

definition main :: "Env \<Rightarrow> System" where
  "main env =
     \<lparr>application = start newApplication, scanner = scanDirectory env, loop = Running,
      ui = EventLoop, crashed = None\<rparr>"

section \<open>What holds in every state of the process\<close>

text \<open>
  The items appended, the items waiting in the channel and the items the scanner has yet
  to send are together what the scanner sends in all. While the loop runs the item
  channel is open and the wait group counts one; once it has stopped the channel is
  closed and the wait group is at zero. The shutdown channel is never closed and holds at
  most ten tokens, all \<open>true\<close>. The list view shows the titles of the items whose
  updates have run.
\<close>

definition consistent :: "Env \<Rightarrow> System \<Rightarrow> bool" where
  "consistent env s =
     (items (application s) @ queue (itemAdded (application s)) @ sends (scanner s)
        = sends (scanDirectory env)
      \<and> isClosed (itemAdded (application s)) = (loop s = Stopped)
      \<and> waitgroup (application s) = (if loop s = Stopped then 0 else 1)
      \<and> capacity (itemAdded (application s)) = 100
      \<and> length (queue (itemAdded (application s))) \<le> 100
      \<and> capacity (stopReceiveNewItem (application s)) = 10
      \<and> length (queue (stopReceiveNewItem (application s))) \<le> 10
      \<and> isClosed (stopReceiveNewItem (application s)) = False
      \<and> set (queue (stopReceiveNewItem (application s))) \<subseteq> {True}
      \<and> listView (application s) @ map Title (updates (application s))
          = map Title (items (application s)))"

section \<open>A sample directory and sample schedules\<close>

text \<open>
  The directory \<open>/d\<close> of the end-to-end scenario, with one entry more: \<open>a.txt\<close>, a text
  file of 10 bytes; \<open>gone\<close>, which is listed but cannot be stat'ed; and the directory
  \<open>b\<close>. The program is started as \<open>gofi /d\<close>.
\<close>

definition fileA :: FileInfo where
  "fileA = \<lparr>Name = ''a.txt'', Size = 10, Mode = 420, IsDir = False\<rparr>"

definition fileGone :: FileInfo where
  "fileGone = \<lparr>Name = ''gone'', Size = 0, Mode = 420, IsDir = False\<rparr>"

definition fileB :: FileInfo where
  "fileB = \<lparr>Name = ''b'', Size = 4096, Mode = 2147484141, IsDir = True\<rparr>"

definition sampleEnv :: Env where
  "sampleEnv =
     \<lparr>Args = [''gofi'', ''/d''],
      Getwd = Inr ''/home'',
      ReadDir = (\<lambda>p. if p = ''/d'' then Inr [fileA, fileGone, fileB]
                     else Inl ''no such file or directory''),
      Stat = (\<lambda>p. if p = ''/d/a.txt'' then Inr fileA
                  else if p = ''/d/b'' then Inr fileB
                  else Inl ''no such file or directory''),
      IsTextFile = (\<lambda>p. p = ''/d/a.txt''),
      ModeString = (\<lambda>m. if m = 420 then ''-rw-r--r--''
                        else if m = 2147484141 then ''drwxr-xr-x'' else ''----------'')\<rparr>"

text \<open>The same machine, started without an argument where the working directory is gone.\<close>

definition noCwdEnv :: Env where
  "noCwdEnv = sampleEnv\<lparr>Args := [''gofi''], Getwd := Inl ''getwd: no such file or directory''\<rparr>"

text \<open>The same machine, started on a directory that cannot be listed.\<close>

definition noDirEnv :: Env where
  "noDirEnv = sampleEnv\<lparr>Args := [''gofi'', ''/nope'']\<rparr>"

definition itemA :: Item where
  "itemA = newItem sampleEnv ''/d'' fileA fileA"

definition itemB :: Item where
  "itemB = newItem sampleEnv ''/d'' fileB fileB"

definition ctrlC :: EventKey where
  "ctrlC = \<lparr>evKey = KeyCtrlC, evRune = 3, evMod = ModCtrl\<rparr>"

definition keyQ :: EventKey where
  "keyQ = \<lparr>evKey = KeyRune, evRune = 113, evMod = ModNone\<rparr>"

text \<open>
  The scanner runs up to its send of \<open>a.txt\<close>; the loop receives the item and the event
  loop runs the queued update. Then the scanner runs up to its send of \<open>b\<close>.
\<close>

definition firstItemShown :: "action list" where
  "firstItemShown = [ScannerStep, ScannerStep, ScannerStep, LoopStep 0, RunUpdate]"

definition secondItemSent :: "action list" where
  "secondItemSent = firstItemShown @ [ScannerStep, ScannerStep, ScannerStep, ScannerStep]"

text \<open>
  After the first item is shown the user presses Ctrl+C and the loop takes the shutdown
  signal, while the scanner is between its two sends.
\<close>

definition quitAfterFirstItem :: "action list" where
  "quitAfterFirstItem =
     firstItemShown @ [ScannerStep, ScannerStep, ScannerStep, KeyEvent ctrlC, LoopStep 0]"

text \<open>An application in which a shutdown signal is pending and an item is available.\<close>

definition bothPending :: Application where
  "bothPending =
     (start newApplication)
       \<lparr>itemAdded := (make_chan 100)\<lparr>queue := [itemA]\<rparr>,
        stopReceiveNewItem := (make_chan 10)\<lparr>queue := [True]\<rparr>\<rparr>"



text \<open>
  The schedule in which the loop receives every item as soon as it has been sent and the
  event loop runs its update at once.
\<close>

fun deliverAll :: "scan_event list \<Rightarrow> action list" where
  "deliverAll [] = []"
| "deliverAll (Send it # es) = ScannerStep # LoopStep 0 # RunUpdate # deliverAll es"
| "deliverAll (e # es) = ScannerStep # deliverAll es"

section \<open>Facts about formatting\<close>

lemma fmt_d_10: "fmt_d 10 = ''10''"
  by (simp add: fmt_d_def decimal.simps)

lemma fullPathOf_eq: "fullPathOf path file = path @ ''/'' @ Name file"
  by (simp add: fullPathOf_def)

section \<open>Facts about the scanner\<close>

lemma Title_newItem: "Title (newItem env path file st) = Name file"
  by (simp add: newItem_def Let_def)

lemma Footer_newItem: "Footer (newItem env path file st) = path @ ''/'' @ Name file"
  by (simp add: newItem_def Let_def fullPathOf_eq)

lemma Description_newItem:
  "Description (newItem env path file st) =
     ''File size: '' @ fmt_d (Size st) @ [CHR 0x0A] @ ''Parent dir: '' @ path @ [CHR 0x0A]
     @ ''File mode: '' @ ModeString env (Mode st) @ [CHR 0x0A]
     @ ''Directory: '' @ (if IsDir st then ''Yes'' else ''No'') @ [CHR 0x0A]
     @ ''File format: '' @ (if IsTextFile env (path @ ''/'' @ Name file) then ''Text'' else ''Bin'')"
  by (simp add: newItem_def Let_def fullPathOf_eq)

lemma sends_append: "sends (xs @ ys) = sends xs @ sends ys"
  by (induction xs rule: sends.induct) auto

lemma Send_in_sends: "Send it \<in> set es \<longleftrightarrow> it \<in> set (sends es)"
  by (induction es rule: sends.induct) auto

lemma sends_scanFiles:
  "sends (scanFiles env path files) =
     map (\<lambda>f. newItem env path f (projr (Stat env (fullPathOf path f))))
       (filter (\<lambda>f. \<not> isl (Stat env (fullPathOf path f))) files)"
  by (induction files) (auto split: sum.splits)

lemma Send_scanFiles:
  "Send it \<in> set (scanFiles env path files) \<Longrightarrow>
   \<exists>file fileStat. file \<in> set files \<and> Stat env (fullPathOf path file) = Inr fileStat
      \<and> it = newItem env path file fileStat"
  by (induction files) (auto split: sum.splits)

lemma stat_fail_logged:
  "file \<in> set files \<Longrightarrow> Stat env (fullPathOf path file) = Inl err \<Longrightarrow>
   Log (''Unable to get stat of '' @ [CHR 0x27] @ Name file @ [CHR 0x27] @ ''. '' @ err)
     \<in> set (scanFiles env path files)"
  by (induction files) (auto split: sum.splits)

lemma scanFiles_no_panic: "e \<in> set (scanFiles env path files) \<Longrightarrow> \<not> is_ScanPanic e"
  by (induction files) (auto split: sum.splits)

lemma scanPath_no_panic: "e \<in> set (scanPath env path) \<Longrightarrow> \<not> is_ScanPanic e"
  by (auto simp: scanPath_def scanFiles_no_panic split: sum.splits)

lemma sends_resolvePath: "sends (fst (resolvePath env)) = []"
  by (auto simp: resolvePath_def split: sum.splits)

lemma resolvePath_Some_no_panic:
  "snd (resolvePath env) = Some path \<Longrightarrow> e \<in> set (fst (resolvePath env)) \<Longrightarrow> \<not> is_ScanPanic e"
  by (auto simp: resolvePath_def split: sum.splits if_splits)

lemma scanDirectory_resolved:
  "snd (resolvePath env) = Some path \<Longrightarrow>
   scanDirectory env = fst (resolvePath env) @ scanPath env path"
  by (cases "resolvePath env") (simp add: scanDirectory_def)

lemma scanDirectory_unresolved:
  "snd (resolvePath env) = None \<Longrightarrow> scanDirectory env = fst (resolvePath env)"
  by (cases "resolvePath env") (simp add: scanDirectory_def)

lemma sends_scanDirectory:
  "sends (scanDirectory env) =
     (case snd (resolvePath env) of None \<Rightarrow> [] | Some path \<Rightarrow> sends (scanPath env path))"
  by (cases "snd (resolvePath env)")
     (simp_all add: scanDirectory_resolved scanDirectory_unresolved sends_append sends_resolvePath)

lemma scanDirectory_resolved_no_panic:
  "snd (resolvePath env) = Some path \<Longrightarrow> e \<in> set (scanDirectory env) \<Longrightarrow> \<not> is_ScanPanic e"
  using resolvePath_Some_no_panic[of env path e] scanPath_no_panic[of e env path]
  by (auto simp: scanDirectory_resolved)

lemma filter_all_but_one:
  "i < length xs \<Longrightarrow> \<forall>j<length xs. P (xs ! j) \<longleftrightarrow> j \<noteq> i \<Longrightarrow>
   filter P xs = take i xs @ drop (Suc i) xs"
proof (induction xs arbitrary: i)
  case Nil
  then show ?case by simp
next
  case (Cons x xs)
  show ?case
  proof (cases i)
    case 0
    with Cons.prems have nx: "\<not> P x" and "\<forall>j<length xs. P (xs ! j)" by auto
    then have "\<forall>y\<in>set xs. P y" by (auto simp: in_set_conv_nth)
    then have "filter P xs = xs" by simp
    with 0 nx show ?thesis by simp
  next
    case (Suc k)
    with Cons.prems have "P x" "k < length xs" "\<forall>j<length xs. P (xs ! j) \<longleftrightarrow> j \<noteq> k"
      by auto
    with Cons.IH[of k] Suc show ?thesis by simp
  qed
qed

section \<open>The scan of the sample directory\<close>

lemma resolvePath_sampleEnv: "resolvePath sampleEnv = ([Log (Sprintln [''Path: '', ''/d''])], Some ''/d'')"
  by (simp add: resolvePath_def sampleEnv_def)

lemma ReadDir_sampleEnv: "ReadDir sampleEnv ''/d'' = Inr [fileA, fileGone, fileB]"
  by (simp add: sampleEnv_def)

lemma Stat_sampleEnv:
  "Stat sampleEnv (fullPathOf ''/d'' fileA) = Inr fileA"
  "Stat sampleEnv (fullPathOf ''/d'' fileGone) = Inl ''no such file or directory''"
  "Stat sampleEnv (fullPathOf ''/d'' fileB) = Inr fileB"
  by (simp_all add: sampleEnv_def fullPathOf_eq fileA_def fileB_def fileGone_def)

lemma scanDirectory_sampleEnv:
  "scanDirectory sampleEnv =
     [Log (Sprintln [''Path: '', ''/d'']),
      Log (Sprintln [''Adding '', ''a.txt'']),
      Send itemA,
      Log (Sprintln [''Adding '', ''gone'']),
      Log (''Unable to get stat of '' @ [CHR 0x27] @ ''gone'' @ [CHR 0x27] @ ''. no such file or directory''),
      Log (Sprintln [''Adding '', ''b'']),
      Send itemB]"
  by (simp add: scanDirectory_def resolvePath_sampleEnv scanPath_def ReadDir_sampleEnv
      Stat_sampleEnv itemA_def itemB_def)
     (simp add: fileA_def fileB_def fileGone_def)

section \<open>Steps of the scanner goroutine\<close>

lemma step_scanner_Log:
  "crashed s = None \<Longrightarrow> ui s \<noteq> Exited \<Longrightarrow> scanner s = Log m # es \<Longrightarrow>
   step ScannerStep s =
     Some (s\<lparr>application := (application s)\<lparr>logged := logged (application s) @ [m]\<rparr>,
             scanner := es\<rparr>)"
  by (simp add: step_def scannerStep_def)

lemma run_quiet_scanner:
  "sends tr = [] \<Longrightarrow> \<forall>e\<in>set tr. \<not> is_ScanPanic e \<Longrightarrow> scanner s = tr \<Longrightarrow>
   crashed s = None \<Longrightarrow> ui s \<noteq> Exited \<Longrightarrow>
   \<exists>s'. run (replicate (length tr) ScannerStep) s = Some s' \<and> scanner s' = []
     \<and> crashed s' = None \<and> ui s' = ui s \<and> loop s' = loop s
     \<and> items (application s') = items (application s)
     \<and> itemAdded (application s') = itemAdded (application s)"
proof (induction tr arbitrary: s)
  case Nil
  then show ?case by simp
next
  case (Cons e tr)
  from Cons.prems(1,2) obtain m where e: "e = Log m"
    by (cases e) auto
  let ?s1 = "s\<lparr>application := (application s)\<lparr>logged := logged (application s) @ [m]\<rparr>,
               scanner := tr\<rparr>"
  have st: "step ScannerStep s = Some ?s1"
    using Cons.prems e by (simp add: step_scanner_Log)
  from Cons.prems e have "sends tr = []" "\<forall>e\<in>set tr. \<not> is_ScanPanic e" by auto
  from Cons.IH[OF this, of ?s1] Cons.prems(4,5)
  obtain s' where "run (replicate (length tr) ScannerStep) ?s1 = Some s'" "scanner s' = []"
    "crashed s' = None" "ui s' = ui s" "loop s' = loop s"
    "items (application s') = items (application s)"
    "itemAdded (application s') = itemAdded (application s)"
    by auto
  with st show ?case by auto
qed

lemma main_fields:
  "scanner (main env) = scanDirectory env" "crashed (main env) = None"
  "ui (main env) = EventLoop" "loop (main env) = Running"
  "items (application (main env)) = []"
  "itemAdded (application (main env)) = make_chan 100"
  "stopReceiveNewItem (application (main env)) = make_chan 10"
  by (simp_all add: main_def start_def newApplication_def logPrintln_def Let_def)

section \<open>Per-entry stat failures\<close>

text \<open>
  Claim C6. When the scanner has resolved its path, the directory lists \<open>N\<close> entries
  and exactly one of them, the \<open>i\<close>-th, fails to stat, the scanner sends the items
  of the other \<open>N - 1\<close> entries, in listing order and each built from its own stat
  result, logs the failure of the \<open>i\<close>-th, and does not panic.
\<close>

theorem one_failed_stat_skips_one_entry:
  assumes resolved: "snd (resolvePath env) = Some path"
    and listed: "ReadDir env path = Inr files"
    and i: "i < length files"
    and one: "\<forall>j<length files. isl (Stat env (fullPathOf path (files ! j))) \<longleftrightarrow> j = i"
  shows "sends (scanDirectory env) =
           map (\<lambda>f. newItem env path f (projr (Stat env (fullPathOf path f))))
             (take i files @ drop (Suc i) files)
         \<and> length (sends (scanDirectory env)) = length files - 1
         \<and> Log (''Unable to get stat of '' @ [CHR 0x27] @ Name (files ! i) @ [CHR 0x27] @ ''. ''
                 @ projl (Stat env (fullPathOf path (files ! i)))) \<in> set (scanDirectory env)
         \<and> (\<forall>e\<in>set (scanDirectory env). \<not> is_ScanPanic e)"
proof -
  let ?ok = "\<lambda>f. \<not> isl (Stat env (fullPathOf path f))"
  have path: "scanPath env path = scanFiles env path files"
    using listed by (simp add: scanPath_def)
  from one have "\<forall>j<length files. ?ok (files ! j) \<longleftrightarrow> j \<noteq> i" by simp
  with i have kept: "filter ?ok files = take i files @ drop (Suc i) files"
    by (rule filter_all_but_one)
  have s: "sends (scanDirectory env) = sends (scanFiles env path files)"
    using resolved path by (simp add: sends_scanDirectory)
  have first: "sends (scanDirectory env) =
      map (\<lambda>f. newItem env path f (projr (Stat env (fullPathOf path f))))
        (take i files @ drop (Suc i) files)"
    by (simp only: s sends_scanFiles kept)
  have len: "length (sends (scanDirectory env)) = length files - 1"
    using i by (simp add: first)
  from one i have "isl (Stat env (fullPathOf path (files ! i)))" by simp
  then have "Stat env (fullPathOf path (files ! i))
               = Inl (projl (Stat env (fullPathOf path (files ! i))))" by simp
  with i have "Log (''Unable to get stat of '' @ [CHR 0x27] @ Name (files ! i) @ [CHR 0x27]
                 @ ''. '' @ projl (Stat env (fullPathOf path (files ! i))))
                 \<in> set (scanFiles env path files)"
    by (intro stat_fail_logged) simp_all
  then have logd: "Log (''Unable to get stat of '' @ [CHR 0x27] @ Name (files ! i) @ [CHR 0x27]
                 @ ''. '' @ projl (Stat env (fullPathOf path (files ! i))))
                 \<in> set (scanDirectory env)"
    using resolved path by (simp add: scanDirectory_resolved)
  have nopanic: "\<forall>e\<in>set (scanDirectory env). \<not> is_ScanPanic e"
    using scanDirectory_resolved_no_panic[OF resolved] by blast
  from first len logd nopanic show ?thesis by blast
qed

theorem one_failed_stat_skips_one_entry_witness:
  "length [fileA, fileGone, fileB] = 3
   \<and> isl (Stat sampleEnv (fullPathOf ''/d'' fileGone))
   \<and> sends (scanDirectory sampleEnv) = [itemA, itemB]
   \<and> length (sends (scanDirectory sampleEnv)) = 2
   \<and> Log (''Unable to get stat of '' @ [CHR 0x27] @ ''gone'' @ [CHR 0x27]
           @ ''. no such file or directory'') \<in> set (scanDirectory sampleEnv)"
proof -
  have r: "snd (resolvePath sampleEnv) = Some ''/d''"
    by (simp add: resolvePath_sampleEnv)
  have i: "1 < length [fileA, fileGone, fileB]" by simp
  have o: "\<forall>j<length [fileA, fileGone, fileB].
             isl (Stat sampleEnv (fullPathOf ''/d'' ([fileA, fileGone, fileB] ! j))) \<longleftrightarrow> j = 1"
    by (simp add: Stat_sampleEnv All_less_Suc numeral_3_eq_3)
  show ?thesis
    using one_failed_stat_skips_one_entry[OF r ReadDir_sampleEnv i o]
    by (simp add: Stat_sampleEnv itemA_def itemB_def) (simp add: fileGone_def)
qed

section \<open>Scan-level errors\<close>

text \<open>
  Claim C7. When the working directory cannot be resolved, or the target directory
  cannot be listed, the scanner sends no item and does not panic; the last thing it does
  is log the error. Run to its end in the process, it leaves the process not crashed, the
  event loop and the ingestion loop running, and \<open>items\<close> and the channel empty.
\<close>

theorem scan_level_error_ends_scan_only:
  assumes "(length (Args env) = 1 \<and> Getwd env = Inl err)
           \<or> (snd (resolvePath env) = Some path \<and> ReadDir env path = Inl err)"
  shows "sends (scanDirectory env) = []
         \<and> (\<forall>e\<in>set (scanDirectory env). \<not> is_ScanPanic e)
         \<and> (last (scanDirectory env) = Log (Sprintln [''Unable to get current directory. '', err])
            \<or> last (scanDirectory env) = Log (Sprintln [''Unable to read dir: '', path, err]))
         \<and> (\<exists>s. run (replicate (length (scanDirectory env)) ScannerStep) (main env) = Some s
               \<and> scanner s = [] \<and> crashed s = None \<and> ui s = EventLoop \<and> loop s = Running
               \<and> items (application s) = [] \<and> queue (itemAdded (application s)) = [])"
proof -
  from assms have quiet: "sends (scanDirectory env) = []"
    by (auto simp: sends_scanDirectory scanPath_def resolvePath_def)
  from assms have nopanic: "\<forall>e\<in>set (scanDirectory env). \<not> is_ScanPanic e"
  proof
    assume "length (Args env) = 1 \<and> Getwd env = Inl err"
    then show ?thesis by (simp add: scanDirectory_def resolvePath_def)
  next
    assume "snd (resolvePath env) = Some path \<and> ReadDir env path = Inl err"
    then show ?thesis using scanDirectory_resolved_no_panic[of env path] by blast
  qed
  from assms have final:
    "last (scanDirectory env) = Log (Sprintln [''Unable to get current directory. '', err])
     \<or> last (scanDirectory env) = Log (Sprintln [''Unable to read dir: '', path, err])"
  proof
    assume "length (Args env) = 1 \<and> Getwd env = Inl err"
    then show ?thesis by (simp add: scanDirectory_def resolvePath_def)
  next
    assume "snd (resolvePath env) = Some path \<and> ReadDir env path = Inl err"
    then show ?thesis by (simp add: scanDirectory_resolved scanPath_def)
  qed
  from run_quiet_scanner[OF quiet nopanic, of "main env"]
  obtain s where "run (replicate (length (scanDirectory env)) ScannerStep) (main env) = Some s"
    "scanner s = []" "crashed s = None" "ui s = EventLoop" "loop s = Running"
    "items (application s) = []" "itemAdded (application s) = make_chan 100"
    by (auto simp: main_fields)
  then have "\<exists>s. run (replicate (length (scanDirectory env)) ScannerStep) (main env) = Some s
               \<and> scanner s = [] \<and> crashed s = None \<and> ui s = EventLoop \<and> loop s = Running
               \<and> items (application s) = [] \<and> queue (itemAdded (application s)) = []"
    by (auto simp: make_chan_def)
  with quiet nopanic final show ?thesis by blast
qed

theorem scan_level_error_ends_scan_only_witness:
  "Getwd noCwdEnv = Inl ''getwd: no such file or directory''
   \<and> sends (scanDirectory noCwdEnv) = []
   \<and> ReadDir noDirEnv ''/nope'' = Inl ''no such file or directory''
   \<and> sends (scanDirectory noDirEnv) = []
   \<and> (\<exists>s. run (replicate (length (scanDirectory noDirEnv)) ScannerStep) (main noDirEnv) = Some s
         \<and> scanner s = [] \<and> crashed s = None \<and> ui s = EventLoop \<and> loop s = Running
         \<and> items (application s) = [] \<and> queue (itemAdded (application s)) = [])"
proof -
  have a: "(length (Args noCwdEnv) = 1 \<and> Getwd noCwdEnv = Inl ''getwd: no such file or directory'')
           \<or> (snd (resolvePath noCwdEnv) = Some ''/nope''
               \<and> ReadDir noCwdEnv ''/nope'' = Inl ''getwd: no such file or directory'')"
    by (simp add: noCwdEnv_def sampleEnv_def)
  have b: "(length (Args noDirEnv) = 1 \<and> Getwd noDirEnv = Inl ''no such file or directory'')
           \<or> (snd (resolvePath noDirEnv) = Some ''/nope''
               \<and> ReadDir noDirEnv ''/nope'' = Inl ''no such file or directory'')"
    by (simp add: noDirEnv_def sampleEnv_def resolvePath_def)
  show ?thesis
    using scan_level_error_ends_scan_only[OF a] scan_level_error_ends_scan_only[OF b]
    by (simp add: noCwdEnv_def noDirEnv_def sampleEnv_def)
qed

section \<open>Published items\<close>

lemma Send_scanDirectory:
  assumes "Send it \<in> set (scanDirectory env)"
  shows "\<exists>path files file fileStat.
           snd (resolvePath env) = Some path \<and> ReadDir env path = Inr files \<and> file \<in> set files
           \<and> Stat env (fullPathOf path file) = Inr fileStat \<and> it = newItem env path file fileStat"
proof -
  from assms have mem: "it \<in> set (sends (scanDirectory env))"
    by (simp add: Send_in_sends)
  then obtain path where r: "snd (resolvePath env) = Some path"
    and "it \<in> set (sends (scanPath env path))"
    by (cases "snd (resolvePath env)") (auto simp: sends_scanDirectory)
  then obtain files where l: "ReadDir env path = Inr files"
    and "Send it \<in> set (scanFiles env path files)"
    by (cases "ReadDir env path") (auto simp: scanPath_def Send_in_sends)
  with Send_scanFiles[of it env path files] r show ?thesis by blast
qed

lemma sublist_between: "ys = ps @ xs @ ss \<Longrightarrow> sublist xs ys"
  by (auto simp: sublist_def)

lemma Description_size_10:
  "Size st = 10 \<Longrightarrow> sublist ''File size: 10'' (Description (newItem env path file st))"
  by (rule sublist_between[where ps = "[]"]) (simp add: Description_newItem fmt_d_10)

lemma Description_not_dir:
  "\<not> IsDir st \<Longrightarrow> sublist ''Directory: No'' (Description (newItem env path file st))"
  by (rule sublist_between[where ps = "''File size: '' @ fmt_d (Size st) @ [CHR 0x0A]
        @ ''Parent dir: '' @ path @ [CHR 0x0A] @ ''File mode: '' @ ModeString env (Mode st)
        @ [CHR 0x0A]"])
     (simp add: Description_newItem)

lemma Description_dir:
  "IsDir st \<Longrightarrow> sublist ''Directory: Yes'' (Description (newItem env path file st))"
  by (rule sublist_between[where ps = "''File size: '' @ fmt_d (Size st) @ [CHR 0x0A]
        @ ''Parent dir: '' @ path @ [CHR 0x0A] @ ''File mode: '' @ ModeString env (Mode st)
        @ [CHR 0x0A]"])
     (simp add: Description_newItem)

lemma Description_text:
  "IsTextFile env (path @ ''/'' @ Name file) \<Longrightarrow>
   sublist ''File format: Text'' (Description (newItem env path file st))"
  by (rule sublist_between[where ss = "[]" and ps = "''File size: '' @ fmt_d (Size st) @ [CHR 0x0A]
        @ ''Parent dir: '' @ path @ [CHR 0x0A] @ ''File mode: '' @ ModeString env (Mode st)
        @ [CHR 0x0A] @ ''Directory: '' @ (if IsDir st then ''Yes'' else ''No'') @ [CHR 0x0A]"])
     (simp add: Description_newItem)

lemma Description_bin:
  "\<not> IsTextFile env (path @ ''/'' @ Name file) \<Longrightarrow>
   sublist ''File format: Bin'' (Description (newItem env path file st))"
  by (rule sublist_between[where ss = "[]" and ps = "''File size: '' @ fmt_d (Size st) @ [CHR 0x0A]
        @ ''Parent dir: '' @ path @ [CHR 0x0A] @ ''File mode: '' @ ModeString env (Mode st)
        @ [CHR 0x0A] @ ''Directory: '' @ (if IsDir st then ''Yes'' else ''No'') @ [CHR 0x0A]"])
     (simp add: Description_newItem)

text \<open>
  Claim C8. Every item the scanner sends comes from an entry of the listing whose stat
  succeeded: its title is the entry's name, its footer is the parent path, a slash and the
  title, and its description is the five-field text built from the stat result, with
  \<open>Text\<close> exactly when the content heuristic says so and \<open>Bin\<close> otherwise. A size of
  10 shows as \<open>File size: 10\<close>, a directory as \<open>Directory: Yes\<close>, anything else as
  \<open>Directory: No\<close>. The title is not empty, given that a directory listing has no entry
  with an empty name.
\<close>

theorem published_item_is_fully_populated:
  assumes sent: "Send it \<in> set (scanDirectory env)"
    and names: "\<forall>dir files. ReadDir env dir = Inr files \<longrightarrow> (\<forall>f\<in>set files. Name f \<noteq> [])"
  shows "\<exists>path files file fileStat.
           snd (resolvePath env) = Some path \<and> ReadDir env path = Inr files \<and> file \<in> set files
           \<and> Stat env (path @ ''/'' @ Name file) = Inr fileStat
           \<and> Title it = Name file \<and> Title it \<noteq> []
           \<and> Footer it = path @ ''/'' @ Title it
           \<and> Description it =
               ''File size: '' @ fmt_d (Size fileStat) @ [CHR 0x0A]
               @ ''Parent dir: '' @ path @ [CHR 0x0A]
               @ ''File mode: '' @ ModeString env (Mode fileStat) @ [CHR 0x0A]
               @ ''Directory: '' @ (if IsDir fileStat then ''Yes'' else ''No'') @ [CHR 0x0A]
               @ ''File format: '' @ (if IsTextFile env (Footer it) then ''Text'' else ''Bin'')
           \<and> (Size fileStat = 10 \<longrightarrow> sublist ''File size: 10'' (Description it))
           \<and> (if IsDir fileStat then sublist ''Directory: Yes'' (Description it)
               else sublist ''Directory: No'' (Description it))
           \<and> (if IsTextFile env (Footer it) then sublist ''File format: Text'' (Description it)
               else sublist ''File format: Bin'' (Description it))"
proof -
  from Send_scanDirectory[OF sent] obtain path files "file" fileStat where
    r: "snd (resolvePath env) = Some path" and l: "ReadDir env path = Inr files"
    and f: "file \<in> set files" and st: "Stat env (fullPathOf path file) = Inr fileStat"
    and it: "it = newItem env path file fileStat"
    by blast
  from names l f have ne: "Name file \<noteq> []" by blast
  have t: "Title it = Name file" by (simp add: it Title_newItem)
  have fo: "Footer it = path @ ''/'' @ Title it" by (simp add: it Title_newItem Footer_newItem)
  have d: "Description it =
               ''File size: '' @ fmt_d (Size fileStat) @ [CHR 0x0A]
               @ ''Parent dir: '' @ path @ [CHR 0x0A]
               @ ''File mode: '' @ ModeString env (Mode fileStat) @ [CHR 0x0A]
               @ ''Directory: '' @ (if IsDir fileStat then ''Yes'' else ''No'') @ [CHR 0x0A]
               @ ''File format: '' @ (if IsTextFile env (Footer it) then ''Text'' else ''Bin'')"
    unfolding it Description_newItem Footer_newItem ..
  have sz: "Size fileStat = 10 \<longrightarrow> sublist ''File size: 10'' (Description it)"
    by (simp add: it Description_size_10)
  have dir: "if IsDir fileStat then sublist ''Directory: Yes'' (Description it)
               else sublist ''Directory: No'' (Description it)"
    by (simp add: it Description_dir Description_not_dir)
  have fmt: "if IsTextFile env (Footer it) then sublist ''File format: Text'' (Description it)
               else sublist ''File format: Bin'' (Description it)"
    unfolding it Footer_newItem by (simp add: Description_text Description_bin)
  from st have st': "Stat env (path @ ''/'' @ Name file) = Inr fileStat"
    by (simp add: fullPathOf_eq)
  from t ne have tne: "Title it \<noteq> []" by simp
  show ?thesis
    apply (rule exI[of _ path])
    apply (rule exI[of _ files])
    apply (rule exI[of _ "file"])
    apply (rule exI[of _ fileStat])
    apply (intro conjI r l f st' t tne fo d sz dir fmt)
    done
qed

lemma fields_itemA:
  "Title itemA = ''a.txt''" "Footer itemA = ''/d/a.txt''"
  "Description itemA = ''File size: 10'' @ [CHR 0x0A] @ ''Parent dir: /d'' @ [CHR 0x0A]
     @ ''File mode: -rw-r--r--'' @ [CHR 0x0A] @ ''Directory: No'' @ [CHR 0x0A] @ ''File format: Text''"
  by (simp_all add: itemA_def Title_newItem Footer_newItem Description_newItem fileA_def fmt_d_10
      sampleEnv_def)

lemma fields_itemB:
  "Title itemB = ''b''" "Footer itemB = ''/d/b''"
  by (simp_all add: itemB_def Title_newItem Footer_newItem fileB_def)

theorem published_item_is_fully_populated_witness:
  "Send itemA \<in> set (scanDirectory sampleEnv)
   \<and> Title itemA = ''a.txt'' \<and> Footer itemA = ''/d/a.txt''
   \<and> (\<exists>path files file fileStat.
         snd (resolvePath sampleEnv) = Some path \<and> ReadDir sampleEnv path = Inr files
         \<and> file \<in> set files \<and> Stat sampleEnv (path @ ''/'' @ Name file) = Inr fileStat
         \<and> Title itemA = Name file \<and> Title itemA \<noteq> []
         \<and> Footer itemA = path @ ''/'' @ Title itemA
         \<and> sublist ''File size: 10'' (Description itemA)
         \<and> sublist ''Directory: No'' (Description itemA)
         \<and> sublist ''File format: Text'' (Description itemA))"
proof -
  have sent: "Send itemA \<in> set (scanDirectory sampleEnv)"
    by (simp add: scanDirectory_sampleEnv)
  have names: "\<forall>dir files. ReadDir sampleEnv dir = Inr files \<longrightarrow> (\<forall>f\<in>set files. Name f \<noteq> [])"
    by (auto simp: sampleEnv_def fileA_def fileB_def fileGone_def split: if_splits)
  from published_item_is_fully_populated[OF sent names]
  obtain path files "file" fileStat where
    *: "snd (resolvePath sampleEnv) = Some path" "ReadDir sampleEnv path = Inr files"
       "file \<in> set files" "Stat sampleEnv (path @ ''/'' @ Name file) = Inr fileStat"
       "Title itemA = Name file" "Title itemA \<noteq> []" "Footer itemA = path @ ''/'' @ Title itemA"
    and sz: "Size fileStat = 10 \<longrightarrow> sublist ''File size: 10'' (Description itemA)"
    and dir: "if IsDir fileStat then sublist ''Directory: Yes'' (Description itemA)
               else sublist ''Directory: No'' (Description itemA)"
    and fmt: "if IsTextFile sampleEnv (Footer itemA) then sublist ''File format: Text'' (Description itemA)
               else sublist ''File format: Bin'' (Description itemA)"
    by blast
  from *(1) have p: "path = ''/d''" by (simp add: resolvePath_sampleEnv)
  from *(4,5) p have fs: "fileStat = fileA"
    by (simp add: fields_itemA sampleEnv_def)
  from sz fs have 1: "sublist ''File size: 10'' (Description itemA)" by (simp add: fileA_def)
  from dir fs have 2: "sublist ''Directory: No'' (Description itemA)" by (simp add: fileA_def)
  from fmt have 3: "sublist ''File format: Text'' (Description itemA)"
    by (simp add: fields_itemA sampleEnv_def)
  from sent * 1 2 3 show ?thesis by (simp add: fields_itemA) blast
qed

section \<open>Channels and the shutdown token\<close>

lemma chan_send_Ok:
  "\<not> isClosed c \<Longrightarrow> length (queue c) < capacity c \<Longrightarrow>
   chan_send c v = Ok (c\<lparr>queue := queue c @ [v]\<rparr>)"
  by (simp add: chan_send_def)


lemma chan_ready_iff: "chan_ready c \<longleftrightarrow> queue c \<noteq> [] \<or> isClosed c"
  by (cases "queue c") (simp_all add: chan_ready_def)

lemma sendStop_Ok:
  "\<not> isClosed (stopReceiveNewItem app) \<Longrightarrow>
   length (queue (stopReceiveNewItem app)) < capacity (stopReceiveNewItem app) \<Longrightarrow>
   sendStop app =
     Ok (app\<lparr>stopReceiveNewItem :=
              (stopReceiveNewItem app)\<lparr>queue := queue (stopReceiveNewItem app) @ [True]\<rparr>\<rparr>)"
  by (simp add: sendStop_def chan_send_Ok)


lemma sendStop_result:
  assumes "sendStop app = Ok app'"
  shows "app' = app\<lparr>stopReceiveNewItem :=
              (stopReceiveNewItem app)\<lparr>queue := queue (stopReceiveNewItem app) @ [True]\<rparr>\<rparr>"
    and "\<not> isClosed (stopReceiveNewItem app)"
    and "length (queue (stopReceiveNewItem app)) < capacity (stopReceiveNewItem app)"
  using assms by (auto simp: sendStop_def chan_send_def split: if_splits)

lemma logPrintln_fields [simp]:
  "focus (logPrintln app ops) = focus app"
  "updates (logPrintln app ops) = updates app"
  "listView (logPrintln app ops) = listView app"
  "items (logPrintln app ops) = items app"
  "selectedItemIndex (logPrintln app ops) = selectedItemIndex app"
  "itemAdded (logPrintln app ops) = itemAdded app"
  "stopReceiveNewItem (logPrintln app ops) = stopReceiveNewItem app"
  "waitgroup (logPrintln app ops) = waitgroup app"
  "footerView (logPrintln app ops) = footerView app"
  by (simp_all add: logPrintln_def)

section \<open>The input capture\<close>

text \<open>What a completed call of the input capture leaves unchanged, and what it sends.\<close>

lemma sendStop_frame:
  assumes "sendStop app = Ok app'"
  shows "items app' = items app \<and> itemAdded app' = itemAdded app
      \<and> waitgroup app' = waitgroup app \<and> updates app' = updates app
      \<and> listView app' = listView app \<and> focus app' = focus app
      \<and> capacity (stopReceiveNewItem app') = capacity (stopReceiveNewItem app)
      \<and> isClosed (stopReceiveNewItem app') = isClosed (stopReceiveNewItem app)
      \<and> queue (stopReceiveNewItem app') = queue (stopReceiveNewItem app) @ [True]
      \<and> length (queue (stopReceiveNewItem app')) \<le> capacity (stopReceiveNewItem app)"
  using sendStop_result[OF assms] by simp

lemma inputCapture_frame:
  assumes "inputCapture app event = Ok (app', event')"
  shows "items app' = items app" and "itemAdded app' = itemAdded app"
    and "waitgroup app' = waitgroup app" and "updates app' = updates app"
    and "listView app' = listView app"
    and "capacity (stopReceiveNewItem app') = capacity (stopReceiveNewItem app)"
    and "isClosed (stopReceiveNewItem app') = isClosed (stopReceiveNewItem app)"
    and "prefix (queue (stopReceiveNewItem app)) (queue (stopReceiveNewItem app'))"
    and "set (queue (stopReceiveNewItem app')) \<subseteq> insert True (set (queue (stopReceiveNewItem app)))"
    and "length (queue (stopReceiveNewItem app')) \<le> capacity (stopReceiveNewItem app)
         \<or> queue (stopReceiveNewItem app') = queue (stopReceiveNewItem app)"
proof -
  let ?P = "\<lambda>a b. items b = items a \<and> itemAdded b = itemAdded a
      \<and> waitgroup b = waitgroup a \<and> updates b = updates a
      \<and> listView b = listView a
      \<and> capacity (stopReceiveNewItem b) = capacity (stopReceiveNewItem a)
      \<and> isClosed (stopReceiveNewItem b) = isClosed (stopReceiveNewItem a)
      \<and> prefix (queue (stopReceiveNewItem a)) (queue (stopReceiveNewItem b))
      \<and> set (queue (stopReceiveNewItem b)) \<subseteq> insert True (set (queue (stopReceiveNewItem a)))
      \<and> (length (queue (stopReceiveNewItem b)) \<le> capacity (stopReceiveNewItem a)
         \<or> queue (stopReceiveNewItem b) = queue (stopReceiveNewItem a))"
  define app0 where "app0 = logPrintln app [''Pressed Ctrl+C, stopping app...'']"
  obtain app1 where first: "(if evKey event = KeyCtrlC then sendStop app0 else Ok app) = Ok app1"
    and rest: "(if focus app1 = ListView then
            if evRune event = J then Ok (app1, NewEventKey KeyDown 0 ModNone)
            else if evRune event = K then Ok (app1, NewEventKey KeyUp 0 ModNone)
            else if evRune event = Q then
              bind_outcome (sendStop (logPrintln app1 [''Pressed Q, stopping app...'']))
                (\<lambda>app2. Ok (app2, NewEventKey KeyCtrlC 0 ModCtrl))
            else Ok (app1, event)
          else Ok (app1, event)) = Ok (app', event')"
    using assms unfolding inputCapture_def app0_def
    by (cases "if evKey event = KeyCtrlC
               then sendStop (logPrintln app [''Pressed Ctrl+C, stopping app...''])
               else Ok app") simp_all
  have one: "?P app app1"
  proof (cases "evKey event = KeyCtrlC")
    case True
    with first have "sendStop app0 = Ok app1" by simp
    from sendStop_frame[OF this] show ?thesis
      unfolding app0_def by auto
  next
    case False
    with first have "app1 = app" by simp
    then show ?thesis by auto
  qed
  have two: "?P app1 app'"
  proof (cases "focus app1 = ListView \<and> evRune event \<noteq> J \<and> evRune event \<noteq> K \<and> evRune event = Q")
    case True
    with rest obtain app2 where s: "sendStop (logPrintln app1 [''Pressed Q, stopping app...'']) = Ok app2"
      and "app' = app2"
      by (cases "sendStop (logPrintln app1 [''Pressed Q, stopping app...''])") auto
    from sendStop_frame[OF s] \<open>app' = app2\<close> show ?thesis by auto
  next
    case False
    with rest have "app' = app1" by (auto split: if_splits)
    then show ?thesis by auto
  qed
  from one two show "items app' = items app" "itemAdded app' = itemAdded app"
    "waitgroup app' = waitgroup app" "updates app' = updates app" "listView app' = listView app"
    "capacity (stopReceiveNewItem app') = capacity (stopReceiveNewItem app)"
    "isClosed (stopReceiveNewItem app') = isClosed (stopReceiveNewItem app)"
    by simp_all
  from one two show "prefix (queue (stopReceiveNewItem app)) (queue (stopReceiveNewItem app'))"
    by (meson prefix_order.order_trans)
  from one two show "set (queue (stopReceiveNewItem app')) \<subseteq> insert True (set (queue (stopReceiveNewItem app)))"
    by auto
  from one two show "length (queue (stopReceiveNewItem app')) \<le> capacity (stopReceiveNewItem app)
         \<or> queue (stopReceiveNewItem app') = queue (stopReceiveNewItem app)"
    by auto
qed

lemma inputCapture_CtrlC_sends:
  assumes c: "evKey event = KeyCtrlC" and ok: "inputCapture app event = Ok (app', event')"
  shows "prefix (queue (stopReceiveNewItem app) @ [True]) (queue (stopReceiveNewItem app'))"
proof -
  let ?app0 = "logPrintln app [''Pressed Ctrl+C, stopping app...'']"
  from ok c obtain app1 where first: "sendStop ?app0 = Ok app1"
    and rest: "(if focus app1 = ListView then
            if evRune event = J then Ok (app1, NewEventKey KeyDown 0 ModNone)
            else if evRune event = K then Ok (app1, NewEventKey KeyUp 0 ModNone)
            else if evRune event = Q then
              bind_outcome (sendStop (logPrintln app1 [''Pressed Q, stopping app...'']))
                (\<lambda>app2. Ok (app2, NewEventKey KeyCtrlC 0 ModCtrl))
            else Ok (app1, event)
          else Ok (app1, event)) = Ok (app', event')"
    unfolding inputCapture_def by (cases "sendStop ?app0") simp_all
  from sendStop_frame[OF first]
  have q1: "queue (stopReceiveNewItem app1) = queue (stopReceiveNewItem app) @ [True]"
    by simp
  show ?thesis
  proof (cases "focus app1 = ListView \<and> evRune event \<noteq> J \<and> evRune event \<noteq> K \<and> evRune event = Q")
    case True
    with rest obtain app2 where s: "sendStop (logPrintln app1 [''Pressed Q, stopping app...'']) = Ok app2"
      and "app' = app2"
      by (cases "sendStop (logPrintln app1 [''Pressed Q, stopping app...''])") auto
    from sendStop_frame[OF s] \<open>app' = app2\<close> q1 show ?thesis by simp
  next
    case False
    with rest have "app' = app1" by (auto split: if_splits)
    with q1 show ?thesis by simp
  qed
qed

text \<open>
  Claim C10. In the input capture
  \<^item> a Ctrl+C sends a shutdown token whatever has the focus: a call that returns has put
    a token at the end of the channel, and the call does return when the open channel has
    room for the tokens;
  \<^item> the rune Q (on a key other than Ctrl+C) with the list view focused logs, puts one
    token at the end of the channel, which is open and has room, and passes on a
    synthesized Ctrl+C;
  \<^item> the rune Q (on a key other than Ctrl+C) with another view focused changes nothing
    and passes the event on as it is.
\<close>

theorem inputCapture_quit_keys:
  "(evKey event = KeyCtrlC \<and> inputCapture app event = Ok (app', event') \<longrightarrow>
      prefix (queue (stopReceiveNewItem app) @ [True]) (queue (stopReceiveNewItem app')))
   \<and> (evKey event = KeyCtrlC \<and> \<not> isClosed (stopReceiveNewItem app)
        \<and> length (queue (stopReceiveNewItem app)) + 2 \<le> capacity (stopReceiveNewItem app) \<longrightarrow>
      (\<exists>app1 event1. inputCapture app event = Ok (app1, event1)))
   \<and> (evKey event \<noteq> KeyCtrlC \<and> evRune event = Q \<and> focus app = ListView
        \<and> \<not> isClosed (stopReceiveNewItem app)
        \<and> length (queue (stopReceiveNewItem app)) < capacity (stopReceiveNewItem app) \<longrightarrow>
      inputCapture app event =
        Ok ((logPrintln app [''Pressed Q, stopping app...''])
              \<lparr>stopReceiveNewItem :=
                 (stopReceiveNewItem app)\<lparr>queue := queue (stopReceiveNewItem app) @ [True]\<rparr>\<rparr>,
            NewEventKey KeyCtrlC 0 ModCtrl))
   \<and> (evKey event \<noteq> KeyCtrlC \<and> evRune event = Q \<and> focus app \<noteq> ListView \<longrightarrow>
      inputCapture app event = Ok (app, event))"
proof (intro conjI impI)
  assume "evKey event = KeyCtrlC \<and> inputCapture app event = Ok (app', event')"
  then show "prefix (queue (stopReceiveNewItem app) @ [True]) (queue (stopReceiveNewItem app'))"
    using inputCapture_CtrlC_sends by blast
next
  assume a: "evKey event = KeyCtrlC \<and> \<not> isClosed (stopReceiveNewItem app)
        \<and> length (queue (stopReceiveNewItem app)) + 2 \<le> capacity (stopReceiveNewItem app)"
  let ?app0 = "logPrintln app [''Pressed Ctrl+C, stopping app...'']"
  let ?app1 = "?app0\<lparr>stopReceiveNewItem :=
                 (stopReceiveNewItem app)\<lparr>queue := queue (stopReceiveNewItem app) @ [True]\<rparr>\<rparr>"
  have s1: "sendStop ?app0 = Ok ?app1"
    using a sendStop_Ok[of ?app0] by simp
  let ?app1q = "logPrintln ?app1 [''Pressed Q, stopping app...'']"
  have "\<exists>app2. sendStop ?app1q = Ok app2"
    using a sendStop_Ok[of ?app1q] by simp
  then obtain app2 where s2: "sendStop ?app1q = Ok app2" ..
  show "\<exists>app1 event1. inputCapture app event = Ok (app1, event1)"
    unfolding inputCapture_def using a s1 s2 by simp
next
  assume a: "evKey event \<noteq> KeyCtrlC \<and> evRune event = Q \<and> focus app = ListView
        \<and> \<not> isClosed (stopReceiveNewItem app)
        \<and> length (queue (stopReceiveNewItem app)) < capacity (stopReceiveNewItem app)"
  have "sendStop (logPrintln app [''Pressed Q, stopping app...'']) =
          Ok ((logPrintln app [''Pressed Q, stopping app...''])
                \<lparr>stopReceiveNewItem :=
                   (stopReceiveNewItem app)\<lparr>queue := queue (stopReceiveNewItem app) @ [True]\<rparr>\<rparr>)"
    using a sendStop_Ok[of "logPrintln app [''Pressed Q, stopping app...'']"] by simp
  with a show "inputCapture app event =
              Ok ((logPrintln app [''Pressed Q, stopping app...''])
                    \<lparr>stopReceiveNewItem :=
                       (stopReceiveNewItem app)\<lparr>queue := queue (stopReceiveNewItem app) @ [True]\<rparr>\<rparr>,
                  NewEventKey KeyCtrlC 0 ModCtrl)"
    by (simp add: inputCapture_def J_def K_def Q_def)
next
  assume "evKey event \<noteq> KeyCtrlC \<and> evRune event = Q \<and> focus app \<noteq> ListView"
  then show "inputCapture app event = Ok (app, event)"
    by (simp add: inputCapture_def)
qed

lemma start_newApplication:
  "start newApplication =
     \<lparr>focus = ListView, updates = [], listView = [], headerView = [], footerView = [],
      descriptionView = [], items = [], selectedItemIndex = 0,
      itemAdded = make_chan 100, stopReceiveNewItem = make_chan 10,
      waitgroup = 1, logged = [Sprintln [''Starting application...'']]\<rparr>"
  by (simp add: start_def newApplication_def logPrintln_def Let_def)

lemma inputCapture_ctrlC_start:
  "inputCapture (start newApplication) ctrlC =
     Ok ((logPrintln (start newApplication) [''Pressed Ctrl+C, stopping app...''])
           \<lparr>stopReceiveNewItem := (make_chan 10)\<lparr>queue := [True]\<rparr>\<rparr>, ctrlC)"
  by (simp add: inputCapture_def sendStop_def chan_send_def ctrlC_def J_def K_def Q_def
      start_newApplication make_chan_def logPrintln_def)

theorem inputCapture_quit_keys_witness:
  "(\<exists>app'. inputCapture (start newApplication) ctrlC = Ok (app', ctrlC)
       \<and> prefix [True] (queue (stopReceiveNewItem app')))
   \<and> (\<exists>app'. inputCapture (start newApplication) keyQ = Ok (app', NewEventKey KeyCtrlC 0 ModCtrl)
       \<and> queue (stopReceiveNewItem app') = [True])
   \<and> inputCapture ((start newApplication)\<lparr>focus := DescriptionView\<rparr>) keyQ
       = Ok ((start newApplication)\<lparr>focus := DescriptionView\<rparr>, keyQ)"
proof -
  let ?app1 = "(logPrintln (start newApplication) [''Pressed Ctrl+C, stopping app...''])
           \<lparr>stopReceiveNewItem := (make_chan 10)\<lparr>queue := [True]\<rparr>\<rparr>"
  have f: "focus (start newApplication) = ListView"
    "\<not> isClosed (stopReceiveNewItem (start newApplication))"
    "queue (stopReceiveNewItem (start newApplication)) = []"
    "capacity (stopReceiveNewItem (start newApplication)) = 10"
    by (simp_all add: start_newApplication make_chan_def)
  have k: "evKey ctrlC = KeyCtrlC" "evKey keyQ \<noteq> KeyCtrlC" "evRune keyQ = Q"
    by (simp_all add: ctrlC_def keyQ_def Q_def)
  from inputCapture_quit_keys[of ctrlC "start newApplication" ?app1 ctrlC]
    inputCapture_ctrlC_start k f
  have 1: "\<exists>app'. inputCapture (start newApplication) ctrlC = Ok (app', ctrlC)
       \<and> prefix [True] (queue (stopReceiveNewItem app'))"
    by simp
  from inputCapture_quit_keys[of keyQ "start newApplication"] k f
  have 2: "\<exists>app'. inputCapture (start newApplication) keyQ = Ok (app', NewEventKey KeyCtrlC 0 ModCtrl)
       \<and> queue (stopReceiveNewItem app') = [True]"
    by simp
  from inputCapture_quit_keys[of keyQ "(start newApplication)\<lparr>focus := DescriptionView\<rparr>"] k
  have 3: "inputCapture ((start newApplication)\<lparr>focus := DescriptionView\<rparr>) keyQ
       = Ok ((start newApplication)\<lparr>focus := DescriptionView\<rparr>, keyQ)"
    by (simp add: start_newApplication)
  from 1 2 3 show ?thesis by blast
qed

section \<open>One iteration of the ingestion loop\<close>

lemma select_neither: "select rnd [] = Default"
  by (simp add: select_def)

lemma select_single: "select rnd [c] = c"
  by (simp add: select_def)

lemma select_both: "select rnd [RecvStop, RecvItem] = (if even rnd then RecvStop else RecvItem)"
proof -
  have len: "length [RecvStop, RecvItem] = 2" by simp
  have "rnd mod 2 = (if even rnd then 0 else 1)"
    by (simp add: even_iff_mod_2_eq_zero odd_iff_mod_2_eq_one)
  then show ?thesis
    unfolding select_def len by (cases "even rnd") simp_all
qed

lemma addItem_fields [simp]:
  "items (addItem app item) = items app @ [item]"
  "updates (addItem app item) = updates app @ [item]"
  "itemAdded (addItem app item) = itemAdded app"
  "stopReceiveNewItem (addItem app item) = stopReceiveNewItem app"
  "waitgroup (addItem app item) = waitgroup app"
  "listView (addItem app item) = listView app"
  "selectedItemIndex (addItem app item) = selectedItemIndex app"
  "footerView (addItem app item) = footerView app"
  "focus (addItem app item) = focus app"
  by (simp_all add: addItem_def Let_def)

lemma queuedUpdate_fields [simp]:
  "items (queuedUpdate item app) = items app"
  "updates (queuedUpdate item app) = updates app"
  "itemAdded (queuedUpdate item app) = itemAdded app"
  "stopReceiveNewItem (queuedUpdate item app) = stopReceiveNewItem app"
  "waitgroup (queuedUpdate item app) = waitgroup app"
  "listView (queuedUpdate item app) = listView app @ [Title item]"
  "selectedItemIndex (queuedUpdate item app) = selectedItemIndex app"
  "footerView (queuedUpdate item app) =
     Sprintf ''%d/%d: %s''
       [D (go_int (selectedItemIndex app + 1)), D (int (length (items app))), S (Footer item)]"
  by (simp_all add: queuedUpdate_def Let_def)

text \<open>The shutdown case of the \<open>select\<close>, taken with a \<open>true\<close> token at the head.\<close>

lemma loopIteration_RecvStop:
  assumes "select rnd (ready_cases app) = RecvStop"
    and "queue (stopReceiveNewItem app) = True # ts"
    and "\<not> isClosed (itemAdded app)" and "0 < waitgroup app"
  shows "loopIteration rnd app =
           Ok (logPrintln
                 (app\<lparr>stopReceiveNewItem := (stopReceiveNewItem app)\<lparr>queue := ts\<rparr>,
                      itemAdded := (itemAdded app)\<lparr>isClosed := True\<rparr>,
                      waitgroup := waitgroup app - 1\<rparr>)
                 [''No longer receive new items''],
               Stopped)"
  using assms by (simp add: loopIteration_def chan_recv_def chan_close_def waitgroupDone_def)

text \<open>The item case of the \<open>select\<close>, taken with an item at the head.\<close>

lemma loopIteration_RecvItem:
  assumes "select rnd (ready_cases app) = RecvItem"
    and "queue (itemAdded app) = it # rest"
  shows "loopIteration rnd app =
           Ok (addItem
                 (logPrintln (app\<lparr>itemAdded := (itemAdded app)\<lparr>queue := rest\<rparr>\<rparr>)
                    [''Receiving newly added item: '', Title it])
                 it,
               Running)"
  using assms by (simp add: loopIteration_def chan_recv_def Let_def)

lemma loopIteration_Default:
  "select rnd (ready_cases app) = Default \<Longrightarrow> loopIteration rnd app = Ok (app, Running)"
  by (simp add: loopIteration_def)

lemma ready_cases_eq:
  "ready_cases app =
     (if chan_ready (stopReceiveNewItem app) then
        if chan_ready (itemAdded app) then [RecvStop, RecvItem] else [RecvStop]
      else if chan_ready (itemAdded app) then [RecvItem] else [])"
  by (simp add: ready_cases_def)

text \<open>
  Claim C2, as the specification states it, fails: with a shutdown signal pending and an
  item available, the \<open>select\<close> may take the item. Here the pick is 1: the item is
  handed to \<open>addItem\<close>, the token stays in the channel, the item channel stays open and
  the loop keeps running.
\<close>

theorem shutdown_has_no_priority_counterexample:
  "queue (stopReceiveNewItem bothPending) = [True]
   \<and> queue (itemAdded bothPending) = [itemA]
   \<and> items bothPending = []
   \<and> (\<exists>app'. loopIteration 1 bothPending = Ok (app', Running)
         \<and> items app' = [itemA]
         \<and> queue (stopReceiveNewItem app') = [True]
         \<and> \<not> isClosed (itemAdded app'))"
proof -
  have q: "queue (stopReceiveNewItem bothPending) = [True]"
    "queue (itemAdded bothPending) = [itemA]" "items bothPending = []"
    "\<not> isClosed (itemAdded bothPending)"
    by (simp_all add: bothPending_def start_newApplication make_chan_def)
  have "select 1 (ready_cases bothPending) = RecvItem"
    by (simp add: ready_cases_eq chan_ready_def q select_both)
  from loopIteration_RecvItem[OF this q(2)] q show ?thesis by simp
qed

text \<open>
  Claim C2, amended. One iteration is one \<open>select\<close> over the two channels:
  \<^item> with a \<open>true\<close> token pending and no item available, the loop takes the token,
    closes the item channel, marks itself complete and stops, and \<open>items\<close> is unchanged;
  \<^item> with an item available and no token pending, the item is taken from the channel and
    handed to \<open>addItem\<close>, and the loop keeps running;
  \<^item> with both, the \<open>select\<close> has no priority: on an even pick the loop stops as above
    and the item stays in the channel, on an odd pick the item is handed to \<open>addItem\<close>
    and the token stays pending;
  \<^item> with neither, nothing changes and the loop keeps running.
\<close>

theorem loopIteration_select:
  assumes wg: "0 < waitgroup app" and opn: "\<not> isClosed (itemAdded app)"
    and opn': "\<not> isClosed (stopReceiveNewItem app)"
  shows "(queue (stopReceiveNewItem app) = True # ts \<and> queue (itemAdded app) = [] \<longrightarrow>
            (\<exists>app'. loopIteration rnd app = Ok (app', Stopped)
               \<and> items app' = items app \<and> isClosed (itemAdded app')
               \<and> queue (stopReceiveNewItem app') = ts \<and> waitgroup app' = waitgroup app - 1))
       \<and> (queue (stopReceiveNewItem app) = [] \<and> queue (itemAdded app) = it # rest \<longrightarrow>
            (\<exists>app'. loopIteration rnd app = Ok (app', Running)
               \<and> items app' = items app @ [it] \<and> updates app' = updates app @ [it]
               \<and> queue (itemAdded app') = rest \<and> \<not> isClosed (itemAdded app')))
       \<and> (queue (stopReceiveNewItem app) = True # ts \<and> queue (itemAdded app) = it # rest \<longrightarrow>
            (if even rnd
             then \<exists>app'. loopIteration rnd app = Ok (app', Stopped)
                    \<and> items app' = items app \<and> isClosed (itemAdded app')
                    \<and> queue (itemAdded app') = it # rest \<and> queue (stopReceiveNewItem app') = ts
             else \<exists>app'. loopIteration rnd app = Ok (app', Running)
                    \<and> items app' = items app @ [it] \<and> \<not> isClosed (itemAdded app')
                    \<and> queue (itemAdded app') = rest
                    \<and> queue (stopReceiveNewItem app') = True # ts))
       \<and> (queue (stopReceiveNewItem app) = [] \<and> queue (itemAdded app) = [] \<longrightarrow>
            loopIteration rnd app = Ok (app, Running))"
proof (intro conjI impI)
  assume a: "queue (stopReceiveNewItem app) = True # ts \<and> queue (itemAdded app) = []"
  then have "select rnd (ready_cases app) = RecvStop"
    using opn by (simp add: ready_cases_eq chan_ready_def select_single)
  from loopIteration_RecvStop[OF this _ opn wg, of ts] a
  show "\<exists>app'. loopIteration rnd app = Ok (app', Stopped)
               \<and> items app' = items app \<and> isClosed (itemAdded app')
               \<and> queue (stopReceiveNewItem app') = ts \<and> waitgroup app' = waitgroup app - 1"
    by simp
next
  assume a: "queue (stopReceiveNewItem app) = [] \<and> queue (itemAdded app) = it # rest"
  then have "select rnd (ready_cases app) = RecvItem"
    using opn' by (simp add: ready_cases_eq chan_ready_def select_single)
  from loopIteration_RecvItem[OF this, of it rest] a opn
  show "\<exists>app'. loopIteration rnd app = Ok (app', Running)
               \<and> items app' = items app @ [it] \<and> updates app' = updates app @ [it]
               \<and> queue (itemAdded app') = rest \<and> \<not> isClosed (itemAdded app')"
    by simp
next
  assume a: "queue (stopReceiveNewItem app) = True # ts \<and> queue (itemAdded app) = it # rest"
  then have sel: "select rnd (ready_cases app) = (if even rnd then RecvStop else RecvItem)"
    by (simp add: ready_cases_eq chan_ready_def select_both)
  show "if even rnd
        then \<exists>app'. loopIteration rnd app = Ok (app', Stopped)
               \<and> items app' = items app \<and> isClosed (itemAdded app')
               \<and> queue (itemAdded app') = it # rest \<and> queue (stopReceiveNewItem app') = ts
        else \<exists>app'. loopIteration rnd app = Ok (app', Running)
               \<and> items app' = items app @ [it] \<and> \<not> isClosed (itemAdded app')
               \<and> queue (itemAdded app') = rest
               \<and> queue (stopReceiveNewItem app') = True # ts"
  proof (cases "even rnd")
    case True
    with sel have "select rnd (ready_cases app) = RecvStop" by simp
    from loopIteration_RecvStop[OF this _ opn wg, of ts] a True show ?thesis by simp
  next
    case False
    with sel have "select rnd (ready_cases app) = RecvItem" by simp
    from loopIteration_RecvItem[OF this, of it rest] a opn False show ?thesis by simp
  qed
next
  assume "queue (stopReceiveNewItem app) = [] \<and> queue (itemAdded app) = []"
  then have "select rnd (ready_cases app) = Default"
    using opn opn' by (simp add: ready_cases_eq chan_ready_def select_neither)
  then show "loopIteration rnd app = Ok (app, Running)"
    by (rule loopIteration_Default)
qed

theorem loopIteration_select_witness:
  "0 < waitgroup bothPending
   \<and> (\<exists>app'. loopIteration 0 bothPending = Ok (app', Stopped)
         \<and> items app' = [] \<and> isClosed (itemAdded app')
         \<and> queue (itemAdded app') = [itemA] \<and> queue (stopReceiveNewItem app') = [])
   \<and> (\<exists>app'. loopIteration 1 bothPending = Ok (app', Running)
         \<and> items app' = [itemA] \<and> \<not> isClosed (itemAdded app')
         \<and> queue (itemAdded app') = [] \<and> queue (stopReceiveNewItem app') = [True])
   \<and> loopIteration 7 (start newApplication) = Ok (start newApplication, Running)"
proof -
  have b: "0 < waitgroup bothPending" "\<not> isClosed (itemAdded bothPending)"
    "\<not> isClosed (stopReceiveNewItem bothPending)"
    "queue (stopReceiveNewItem bothPending) = [True]"
    "queue (itemAdded bothPending) = [itemA]" "items bothPending = []"
    by (simp_all add: bothPending_def start_newApplication make_chan_def)
  have n: "0 < waitgroup (start newApplication)" "\<not> isClosed (itemAdded (start newApplication))"
    "\<not> isClosed (stopReceiveNewItem (start newApplication))"
    "queue (stopReceiveNewItem (start newApplication)) = []"
    "queue (itemAdded (start newApplication)) = []"
    by (simp_all add: start_newApplication make_chan_def)
  show ?thesis
    using loopIteration_select[OF b(1-3), where ts = "[]" and it = itemA and rest = "[]" and rnd = 0]
      loopIteration_select[OF b(1-3), where ts = "[]" and it = itemA and rest = "[]" and rnd = 1]
      loopIteration_select[OF n(1-3), where ts = "[]" and it = itemA and rest = "[]" and rnd = 7]
    by (simp add: b n)
qed

section \<open>Steps of the process\<close>

lemma select_cases:
  "select rnd cs = Default \<and> cs = [] \<or> select rnd cs \<in> set cs"
  by (simp add: select_def)

text \<open>
  What an iteration of the loop does when the loop's own channel discipline holds: it
  never blocks and never panics, and it does one of three things.
\<close>

lemma loopIteration_cases:
  assumes opn: "\<not> isClosed (itemAdded app)" and wg: "0 < waitgroup app"
    and opn': "\<not> isClosed (stopReceiveNewItem app)"
    and tokens: "set (queue (stopReceiveNewItem app)) \<subseteq> {True}"
  obtains
    (stop) ts where "queue (stopReceiveNewItem app) = True # ts"
      "loopIteration rnd app =
           Ok (logPrintln
                 (app\<lparr>stopReceiveNewItem := (stopReceiveNewItem app)\<lparr>queue := ts\<rparr>,
                      itemAdded := (itemAdded app)\<lparr>isClosed := True\<rparr>,
                      waitgroup := waitgroup app - 1\<rparr>)
                 [''No longer receive new items''],
               Stopped)"
  | (item) it rest where "queue (itemAdded app) = it # rest"
      "loopIteration rnd app =
           Ok (addItem
                 (logPrintln (app\<lparr>itemAdded := (itemAdded app)\<lparr>queue := rest\<rparr>\<rparr>)
                    [''Receiving newly added item: '', Title it])
                 it,
               Running)"
  | (idle) "loopIteration rnd app = Ok (app, Running)"
proof -
  from select_cases[of rnd "ready_cases app"]
  consider "select rnd (ready_cases app) = Default"
    | "select rnd (ready_cases app) = RecvStop" "chan_ready (stopReceiveNewItem app)"
    | "select rnd (ready_cases app) = RecvItem" "chan_ready (itemAdded app)"
    by (auto simp: ready_cases_eq split: if_splits)
  then show thesis
  proof cases
    case 1
    then show ?thesis by (intro idle loopIteration_Default)
  next
    case 2
    with opn' obtain v ts where q: "queue (stopReceiveNewItem app) = v # ts"
      by (cases "queue (stopReceiveNewItem app)") (auto simp: chan_ready_iff)
    with tokens have "v = True" by auto
    with q have q': "queue (stopReceiveNewItem app) = True # ts" by simp
    from loopIteration_RecvStop[OF 2(1) q' opn wg] q' show ?thesis by (rule stop[rotated])
  next
    case 3
    with opn obtain it rest where q: "queue (itemAdded app) = it # rest"
      by (cases "queue (itemAdded app)") (auto simp: chan_ready_iff)
    from loopIteration_RecvItem[OF 3(1) q] q show ?thesis by (rule item[rotated])
  qed
qed

lemma changedFunc_frame:
  assumes "changedFunc app index = Ok app'"
  shows "items app' = items app" "itemAdded app' = itemAdded app"
    "stopReceiveNewItem app' = stopReceiveNewItem app" "waitgroup app' = waitgroup app"
    "updates app' = updates app" "listView app' = listView app"
  using assms by (auto simp: changedFunc_def Let_def split: if_splits)

lemma consistent_main: "consistent env (main env)"
  by (simp add: consistent_def main_def start_newApplication make_chan_def)

lemma scannerStep_consistent:
  assumes c: "consistent env s" and st: "scannerStep s = Some s'"
  shows "consistent env s'"
proof (cases "scanner s")
  case Nil
  with st show ?thesis by (simp add: scannerStep_def)
next
  case (Cons e es)
  show ?thesis
  proof (cases e)
    case (Log m)
    with Cons st have "s' = s\<lparr>application := (application s)\<lparr>logged := logged (application s) @ [m]\<rparr>,
                             scanner := es\<rparr>"
      by (simp add: scannerStep_def)
    with c Cons Log show ?thesis by (simp add: consistent_def)
  next
    case (Send it)
    show ?thesis
    proof (cases "chan_send (itemAdded (application s)) it")
      case (Ok ch)
      with Cons Send st have s': "s' = s\<lparr>application := (application s)\<lparr>itemAdded := ch\<rparr>, scanner := es\<rparr>"
        by (simp add: scannerStep_def)
      from Ok have ch: "ch = (itemAdded (application s))\<lparr>queue := queue (itemAdded (application s)) @ [it]\<rparr>"
        and "length (queue (itemAdded (application s))) < capacity (itemAdded (application s))"
        by (auto simp: chan_send_def split: if_splits)
      with c Cons Send s' show ?thesis by (simp add: consistent_def)
    next
      case Blocked
      with Cons Send st show ?thesis by (simp add: scannerStep_def)
    next
      case (Panic m)
      with Cons Send st have "s' = s\<lparr>crashed := Some m\<rparr>" by (simp add: scannerStep_def)
      with c show ?thesis by (simp add: consistent_def)
    qed
  next
    case (ScanPanic m)
    with Cons st have "s' = s\<lparr>crashed := Some m\<rparr>" by (simp add: scannerStep_def)
    with c show ?thesis by (simp add: consistent_def)
  qed
qed

lemma loopStep_consistent:
  assumes c: "consistent env s" and st: "loopStep rnd s = Some s'"
  shows "consistent env s'"
proof -
  from st have run: "loop s = Running"
    by (cases "loop s") (simp_all add: loopStep_def)
  with c have opn: "\<not> isClosed (itemAdded (application s))" and wg: "0 < waitgroup (application s)"
    and opn': "\<not> isClosed (stopReceiveNewItem (application s))"
    and tokens: "set (queue (stopReceiveNewItem (application s))) \<subseteq> {True}"
    by (simp_all add: consistent_def)
  from opn wg opn' tokens show ?thesis
  proof (cases rule: loopIteration_cases[where rnd = rnd])
    case (stop ts)
    with st run have "s' = s\<lparr>application := logPrintln
                 ((application s)\<lparr>stopReceiveNewItem := (stopReceiveNewItem (application s))\<lparr>queue := ts\<rparr>,
                      itemAdded := (itemAdded (application s))\<lparr>isClosed := True\<rparr>,
                      waitgroup := waitgroup (application s) - 1\<rparr>)
                 [''No longer receive new items''], loop := Stopped\<rparr>"
      by (simp add: loopStep_def)
    with c run stop(1) show ?thesis by (auto simp: consistent_def)
  next
    case (item it rest)
    with st run have "s' = s\<lparr>application := addItem
                 (logPrintln ((application s)\<lparr>itemAdded := (itemAdded (application s))\<lparr>queue := rest\<rparr>\<rparr>)
                    [''Receiving newly added item: '', Title it]) it, loop := Running\<rparr>"
      by (simp add: loopStep_def)
    with c run item(1) show ?thesis by (auto simp: consistent_def)
  next
    case idle
    with st run have "s' = s\<lparr>application := application s, loop := Running\<rparr>"
      by (simp add: loopStep_def)
    with c run show ?thesis by (simp add: consistent_def)
  qed
qed

lemma uiStep_consistent:
  assumes c: "consistent env s" and st: "uiStep a s = Some s'"
  shows "consistent env s'"
proof (cases a)
  case RunUpdate
  with st obtain item rest where u: "updates (application s) = item # rest"
    and "s' = s\<lparr>application := queuedUpdate item ((application s)\<lparr>updates := rest\<rparr>)\<rparr>"
    by (cases "updates (application s)") (auto simp: uiStep_def)
  with c show ?thesis by (simp add: consistent_def)
next
  case (KeyEvent event)
  show ?thesis
  proof (cases "inputCapture (application s) event")
    case (Ok r)
    obtain a' event' where r: "r = (a', event')" by (cases r)
    from Ok r st KeyEvent have s': "s' = s\<lparr>application := logPrintln a' [''Waiting until no longer receiving new item...''], ui := Waiting\<rparr>
          \<or> s' = s\<lparr>application := a'\<rparr>"
      by (auto simp: uiStep_def split: if_splits)
    note f = inputCapture_frame[OF Ok[unfolded r]]
    from c f(10) have len: "length (queue (stopReceiveNewItem a')) \<le> 10"
      by (auto simp: consistent_def)
    from c f(9) have tok: "set (queue (stopReceiveNewItem a')) \<subseteq> {True}"
      by (auto simp: consistent_def)
    from s' c f(1-7) len tok show ?thesis
      by (auto simp: consistent_def)
  next
    case Blocked
    with st KeyEvent show ?thesis by (simp add: uiStep_def)
  next
    case (Panic m)
    with st KeyEvent have "s' = s\<lparr>crashed := Some m\<rparr>" by (simp add: uiStep_def)
    with c show ?thesis by (simp add: consistent_def)
  qed
next
  case MouseEvent
  with st have "s' = s\<lparr>application := mouseCapture (application s)\<rparr>" by (simp add: uiStep_def)
  with c show ?thesis by (simp add: consistent_def mouseCapture_def)
next
  case (SetFocus p)
  with st have "s' = s\<lparr>application := (application s)\<lparr>focus := p\<rparr>\<rparr>" by (simp add: uiStep_def)
  with c show ?thesis by (simp add: consistent_def)
next
  case (SelectionChanged index)
  show ?thesis
  proof (cases "changedFunc (application s) index")
    case (Ok a')
    with st SelectionChanged have "s' = s\<lparr>application := a'\<rparr>"
      by (auto simp: uiStep_def split: if_splits)
    with c changedFunc_frame[OF Ok] show ?thesis by (simp add: consistent_def)
  next
    case Blocked
    with st SelectionChanged show ?thesis by (auto simp: uiStep_def split: if_splits)
  next
    case (Panic m)
    with st SelectionChanged have "s' = s\<lparr>crashed := Some m\<rparr>"
      by (auto simp: uiStep_def split: if_splits)
    with c show ?thesis by (simp add: consistent_def)
  qed
next
  case (RunFailed err)
  with st have "s' = s\<lparr>crashed := Some err\<rparr>" by (simp add: uiStep_def)
  with c show ?thesis by (simp add: consistent_def)
qed (use st in \<open>simp_all add: uiStep_def\<close>)

lemma step_consistent:
  assumes c: "consistent env s" and st: "step a s = Some s'"
  shows "consistent env s'"
proof -
  from st have live: "crashed s = None \<and> ui s \<noteq> Exited"
    by (auto simp: step_def split: if_splits)
  show ?thesis
  proof (cases a)
    case ScannerStep
    with st live show ?thesis using scannerStep_consistent[OF c] by (simp add: step_def)
  next
    case (LoopStep rnd)
    with st live show ?thesis using loopStep_consistent[OF c] by (simp add: step_def)
  next
    case WaitReturns
    with st live have "s' = s\<lparr>application := logPrintln (application s) [''Stopped''], ui := Exited\<rparr>"
      by (auto simp: step_def split: if_splits)
    with c show ?thesis by (simp add: consistent_def)
  qed (use st live uiStep_consistent[OF c, of a s'] in \<open>auto simp: step_def split: if_splits\<close>)
qed

lemma run_consistent:
  "consistent env s \<Longrightarrow> run acts s = Some s' \<Longrightarrow> consistent env s'"
proof (induction acts arbitrary: s)
  case Nil
  then show ?case by simp
next
  case (Cons a acts)
  from Cons.prems(2) obtain s1 where "step a s = Some s1" "run acts s1 = Some s'"
    by (cases "step a s") auto
  with Cons.IH[of s1] step_consistent[OF Cons.prems(1)] show ?case by blast
qed

lemma reachable_consistent: "run acts (main env) = Some s \<Longrightarrow> consistent env s"
  using run_consistent[OF consistent_main] .

text \<open>
  So whenever the loop is running, the conditions under which its iteration is analysed
  above hold: the wait group counts one and both channels are open.
\<close>

lemma running_loop_conditions:
  assumes "run acts (main env) = Some s" and "loop s = Running"
  shows "0 < waitgroup (application s)" and "\<not> isClosed (itemAdded (application s))"
    and "\<not> isClosed (stopReceiveNewItem (application s))"
  using reachable_consistent[OF assms(1)] assms(2) by (simp_all add: consistent_def)

section \<open>Order of arrival\<close>


text \<open>
  From a state in which the loop runs, both channels are open and empty and no update is
  queued, the schedule \<open>deliverAll\<close> carries every item of the scanner into \<open>items\<close> and
  onto the list.
\<close>

lemma deliverAll_delivers:
  assumes "scanner s = tr" and "\<forall>e\<in>set tr. \<not> is_ScanPanic e"
    and "crashed s = None" and "ui s = EventLoop" and "loop s = Running"
    and "queue (itemAdded (application s)) = []" and "\<not> isClosed (itemAdded (application s))"
    and "0 < capacity (itemAdded (application s))"
    and "queue (stopReceiveNewItem (application s)) = []"
    and "\<not> isClosed (stopReceiveNewItem (application s))"
    and "updates (application s) = []"
  shows "\<exists>s'. run (deliverAll tr) s = Some s'
           \<and> items (application s') = items (application s) @ sends tr
           \<and> listView (application s') = listView (application s) @ map Title (sends tr)
           \<and> scanner s' = [] \<and> crashed s' = None"
  using assms
proof (induction tr arbitrary: s)
  case Nil
  then show ?case by simp
next
  case (Cons e es)
  show ?case
  proof (cases e)
    case (Send it)
    note p = Cons.prems[unfolded Send]
    let ?a = "application s"
    let ?s1 = "s\<lparr>application := ?a\<lparr>itemAdded := (itemAdded ?a)\<lparr>queue := [it]\<rparr>\<rparr>, scanner := es\<rparr>"
    have st1: "step ScannerStep s = Some ?s1"
      using p by (simp add: step_def scannerStep_def chan_send_def)
    let ?a1 = "application ?s1"
    let ?a2 = "addItem (logPrintln (?a1\<lparr>itemAdded := (itemAdded ?a1)\<lparr>queue := []\<rparr>\<rparr>)
                          [''Receiving newly added item: '', Title it]) it"
    let ?s2 = "?s1\<lparr>application := ?a2, loop := Running\<rparr>"
    have "select 0 (ready_cases ?a1) = RecvItem"
      using p by (simp add: ready_cases_eq chan_ready_def select_single)
    then have "loopIteration 0 ?a1 = Ok (?a2, Running)"
      by (rule loopIteration_RecvItem) simp
    then have st2: "step (LoopStep 0) ?s1 = Some ?s2"
      using p by (simp add: step_def loopStep_def)
    let ?s3 = "?s2\<lparr>application := queuedUpdate it (?a2\<lparr>updates := []\<rparr>)\<rparr>"
    have st3: "step RunUpdate ?s2 = Some ?s3"
      using p by (simp add: step_def uiStep_def)
    have "\<exists>s'. run (deliverAll es) ?s3 = Some s'
             \<and> items (application s') = items (application ?s3) @ sends es
             \<and> listView (application s') = listView (application ?s3) @ map Title (sends es)
             \<and> scanner s' = [] \<and> crashed s' = None"
      using p by (intro Cons.IH) simp_all
    then obtain s' where "run (deliverAll es) ?s3 = Some s'"
      "items (application s') = items (application ?s3) @ sends es"
      "listView (application s') = listView (application ?s3) @ map Title (sends es)"
      "scanner s' = []" "crashed s' = None"
      by blast
    then show ?thesis
      using st1 st2 st3 Send by simp
  next
    case (Log m)
    note p = Cons.prems[unfolded Log]
    let ?s1 = "s\<lparr>application := (application s)\<lparr>logged := logged (application s) @ [m]\<rparr>,
                 scanner := es\<rparr>"
    have st1: "step ScannerStep s = Some ?s1"
      using p by (simp add: step_scanner_Log)
    have "\<exists>s'. run (deliverAll es) ?s1 = Some s'
             \<and> items (application s') = items (application ?s1) @ sends es
             \<and> listView (application s') = listView (application ?s1) @ map Title (sends es)
             \<and> scanner s' = [] \<and> crashed s' = None"
      using p by (intro Cons.IH) simp_all
    then show ?thesis using st1 Log by simp
  next
    case (ScanPanic m)
    with Cons.prems show ?thesis by simp
  qed
qed

text \<open>
  Claim C5. In every state the process reaches, the items appended to \<open>items\<close>,
  followed by those waiting in the channel and those the scanner has yet to send, are the
  items the scanner sends, in the scanner's order: \<open>items\<close> is always the first part of
  that sequence. And when the scanner does not panic there is a schedule that carries all
  \<open>N\<close> of them into \<open>items\<close> and onto the list, in that order.
\<close>

theorem items_arrive_in_scanner_order:
  "(\<forall>acts s. run acts (main env) = Some s \<longrightarrow>
       items (application s) @ queue (itemAdded (application s)) @ sends (scanner s)
         = sends (scanDirectory env)
       \<and> prefix (items (application s)) (sends (scanDirectory env)))
   \<and> ((\<forall>e\<in>set (scanDirectory env). \<not> is_ScanPanic e) \<longrightarrow>
       (\<exists>s. run (deliverAll (scanDirectory env)) (main env) = Some s
          \<and> items (application s) = sends (scanDirectory env)
          \<and> listView (application s) = map Title (sends (scanDirectory env))))"
proof (intro conjI allI impI)
  fix acts s
  assume "run acts (main env) = Some s"
  then have "consistent env s" by (rule reachable_consistent)
  then show eq: "items (application s) @ queue (itemAdded (application s)) @ sends (scanner s)
         = sends (scanDirectory env)"
    by (simp add: consistent_def)
  then show "prefix (items (application s)) (sends (scanDirectory env))"
    by (metis prefixI)
next
  assume "\<forall>e\<in>set (scanDirectory env). \<not> is_ScanPanic e"
  with deliverAll_delivers[of "main env" "scanDirectory env"]
  show "\<exists>s. run (deliverAll (scanDirectory env)) (main env) = Some s
          \<and> items (application s) = sends (scanDirectory env)
          \<and> listView (application s) = map Title (sends (scanDirectory env))"
    by (auto simp: main_def start_newApplication make_chan_def)
qed

lemma run_secondItemSent: "run secondItemSent (main sampleEnv) \<noteq> None"
  by code_simp

lemma sends_sampleEnv: "sends (scanDirectory sampleEnv) = [itemA, itemB]"
  by (simp add: scanDirectory_sampleEnv)

theorem items_arrive_in_scanner_order_witness:
  "(\<exists>s. run secondItemSent (main sampleEnv) = Some s
       \<and> items (application s) @ queue (itemAdded (application s)) @ sends (scanner s)
           = [itemA, itemB])
   \<and> (\<exists>s. run (deliverAll (scanDirectory sampleEnv)) (main sampleEnv) = Some s
       \<and> items (application s) = [itemA, itemB]
       \<and> listView (application s) = [''a.txt'', ''b''])"
proof -
  from run_secondItemSent obtain s where s: "run secondItemSent (main sampleEnv) = Some s"
    by blast
  have np: "\<forall>e\<in>set (scanDirectory sampleEnv). \<not> is_ScanPanic e"
    by (simp add: scanDirectory_sampleEnv)
  from items_arrive_in_scanner_order[of sampleEnv] s np
  show ?thesis by (simp add: sends_sampleEnv fields_itemA fields_itemB)
qed

section \<open>Repeated shutdown tokens\<close>









section \<open>Where the code departs from the specification\<close>

text \<open>
  Claim C1 does not hold of the code. \<open>addItem\<close> appends to \<open>items\<close> itself, on the
  goroutine that calls it, which is the ingestion loop; the function it queues for the
  event loop only touches the list view and the footer and leaves \<open>items\<close> as it is. In
  the sample run, after the loop's step the second item is in \<open>items\<close> while its update
  is still queued, and in the state before that step the event loop could as well have
  run the selection-changed callback, which reads \<open>items\<close>.
\<close>

theorem addItem_appends_on_the_loop_goroutine:
  "items (addItem app item) = items app @ [item]
   \<and> updates (addItem app item) = updates app @ [item]
   \<and> items (queuedUpdate item app) = items app
   \<and> goroutine_of (LoopStep rnd) = LoopGoroutine
   \<and> goroutine_of (SelectionChanged index) = MainGoroutine
   \<and> map_option (\<lambda>s. (items (application s), updates (application s), listView (application s)))
        (run secondItemSent (main sampleEnv)) = Some ([itemA], [], [''a.txt''])
   \<and> map_option (\<lambda>s. (items (application s), updates (application s), listView (application s)))
        (run (secondItemSent @ [LoopStep 0]) (main sampleEnv))
        = Some ([itemA, itemB], [itemB], [''a.txt''])
   \<and> map_option (\<lambda>s. step (SelectionChanged 0) s \<noteq> None)
        (run secondItemSent (main sampleEnv)) = Some True"
proof -
  have "map_option (\<lambda>s. (items (application s), updates (application s), listView (application s)))
        (run secondItemSent (main sampleEnv)) = Some ([itemA], [], [''a.txt''])"
    by code_simp
  moreover have "map_option (\<lambda>s. (items (application s), updates (application s), listView (application s)))
        (run (secondItemSent @ [LoopStep 0]) (main sampleEnv))
        = Some ([itemA, itemB], [itemB], [''a.txt''])"
    by code_simp
  moreover have "map_option (\<lambda>s. step (SelectionChanged 0) s \<noteq> None)
        (run secondItemSent (main sampleEnv)) = Some True"
    by code_simp
  ultimately show ?thesis by simp
qed

text \<open>
  Claim C3 does not hold of the code. On shutdown the loop closes the item channel, and
  a send on a closed channel panics. In the sample run the user quits after the first
  item; the loop stops and closes the channel while the scanner still has \<open>b\<close> to send,
  and the scanner's next step ends the process with \<open>send on closed channel\<close>.
\<close>

theorem send_after_shutdown_panics:
  "map_option (\<lambda>s. (loop s, crashed s, scanner s, isClosed (itemAdded (application s))))
     (run quitAfterFirstItem (main sampleEnv)) = Some (Stopped, None, [Send itemB], True)
   \<and> map_option crashed (run (quitAfterFirstItem @ [ScannerStep]) (main sampleEnv))
       = Some (Some ''send on closed channel'')"
proof -
  have "map_option (\<lambda>s. (loop s, crashed s, scanner s, isClosed (itemAdded (application s))))
     (run quitAfterFirstItem (main sampleEnv)) = Some (Stopped, None, [Send itemB], True)"
    by code_simp
  moreover have "map_option crashed (run (quitAfterFirstItem @ [ScannerStep]) (main sampleEnv))
       = Some (Some ''send on closed channel'')"
    by code_simp
  ultimately show ?thesis by simp
qed

text \<open>
  Claim C4 does not hold of the code. The footer written by the queued update shows the
  path of the item just added, not that of the selected item. In the sample run, with
  the first item selected, appending the second item sets the footer to \<open>1/2: /d/b\<close>,
  where the selected item's path is \<open>/d/a.txt\<close>.
\<close>

theorem footer_shows_path_of_added_item:
  "footerView (queuedUpdate item app) =
     Sprintf ''%d/%d: %s''
       [D (go_int (selectedItemIndex app + 1)), D (int (length (items app))), S (Footer item)]
   \<and> map_option (\<lambda>s. (selectedItemIndex (application s), items (application s),
                       footerView (application s)))
        (run (secondItemSent @ [LoopStep 0, RunUpdate]) (main sampleEnv))
        = Some (0, [itemA, itemB], ''1/2: /d/b'')
   \<and> Footer ([itemA, itemB] ! 0) = ''/d/a.txt''"
proof -
  have "map_option (\<lambda>s. (selectedItemIndex (application s), items (application s),
                       footerView (application s)))
        (run (secondItemSent @ [LoopStep 0, RunUpdate]) (main sampleEnv))
        = Some (0, [itemA, itemB], ''1/2: /d/b'')"
    by code_simp
  then show ?thesis by (simp add: fields_itemA)
qed

end
